theory Spec2Isabelle
  imports Complex_Main "HOL-Library.Word"
begin

unbundle bit_operations_syntax

section \<open>Data model\<close>

text \<open>
  A JavaScript Number is an IEEE 754 binary64 value.  The finite non-zero values and
  positive zero are carried by their exact rational value; negative zero, the two
  infinities and NaN are constructors of their own.
\<close>

datatype jsnum = Fin rat | NegZero | PosInf | NegInf | NaN

subsection \<open>Number arithmetic\<close>

text \<open>
  Rounding to a binary floating-point format, round to nearest, ties to even.
  \<open>bitlen n\<close> is the number of binary digits of \<open>n\<close>, \<open>pow2 e\<close> is \<open>2\<close> to the
  power \<open>e\<close>, \<open>ilog2 q\<close> is the binary exponent of a positive rational, and
  \<open>roundToFormat p emin q\<close> rounds a positive rational to precision \<open>p\<close> with smallest
  normal exponent \<open>emin\<close> (gradual underflow below it).
\<close>

function bitlen :: "int \<Rightarrow> int" where
  "bitlen n = (if n \<le> 0 then 0 else 1 + bitlen (n div 2))"
  by pat_completeness auto
termination
  by (relation "measure nat") auto

declare bitlen.simps [simp del]

definition pow2 :: "int \<Rightarrow> rat" where
  "pow2 e = (if 0 \<le> e then 2 ^ nat e else 1 / 2 ^ nat (- e))"

definition ilog2 :: "rat \<Rightarrow> int" where
  "ilog2 q = (if 1 \<le> q then bitlen \<lfloor>q\<rfloor> - 1 else - bitlen (\<lceil>1 / q\<rceil> - 1))"

definition roundHalfEven :: "rat \<Rightarrow> int" where
  "roundHalfEven q =
    (let f = \<lfloor>q\<rfloor>; r = q - of_int f
     in if r < 1 / 2 then f else if 1 / 2 < r then f + 1
        else if even f then f else f + 1)"

definition roundToFormat :: "nat \<Rightarrow> int \<Rightarrow> rat \<Rightarrow> rat" where
  "roundToFormat p emin q =
    (let e = max (ilog2 q) emin; ulp = pow2 (e - int p + 1)
     in of_int (roundHalfEven (q / ulp)) * ulp)"

text \<open>The result of an exact real operation as a Number (binary64).\<close>

definition roundDouble :: "rat \<Rightarrow> jsnum" where
  "roundDouble q =
    (if q = 0 then Fin 0
     else let r = roundToFormat 53 (- 1022) \<bar>q\<bar>
          in if pow2 1024 \<le> r then (if q < 0 then NegInf else PosInf)
             else if r = 0 then (if q < 0 then NegZero else Fin 0)
             else Fin (if q < 0 then - r else r))"

fun isNegative :: "jsnum \<Rightarrow> bool" where
  "isNegative (Fin q) = (q < 0)"
| "isNegative NegZero = True"
| "isNegative NegInf = True"
| "isNegative PosInf = False"
| "isNegative NaN = False"

fun isZero :: "jsnum \<Rightarrow> bool" where
  "isZero (Fin q) = (q = 0)"
| "isZero NegZero = True"
| "isZero _ = False"

fun isInfinite :: "jsnum \<Rightarrow> bool" where
  "isInfinite PosInf = True"
| "isInfinite NegInf = True"
| "isInfinite _ = False"

fun ratOf :: "jsnum \<Rightarrow> rat" where
  "ratOf (Fin q) = q"
| "ratOf _ = 0"

definition signedZero :: "bool \<Rightarrow> jsnum" where
  "signedZero neg = (if neg then NegZero else Fin 0)"

definition signedInf :: "bool \<Rightarrow> jsnum" where
  "signedInf neg = (if neg then NegInf else PosInf)"

fun dneg :: "jsnum \<Rightarrow> jsnum" where
  "dneg (Fin q) = (if q = 0 then NegZero else Fin (- q))"
| "dneg NegZero = Fin 0"
| "dneg PosInf = NegInf"
| "dneg NegInf = PosInf"
| "dneg NaN = NaN"

text \<open>JavaScript \<^verbatim>\<open>a + b\<close>, \<^verbatim>\<open>a - b\<close>, \<^verbatim>\<open>a * b\<close> and \<^verbatim>\<open>a / b\<close> on Numbers.\<close>

definition dadd :: "jsnum \<Rightarrow> jsnum \<Rightarrow> jsnum" where
  "dadd a b =
    (if a = NaN \<or> b = NaN then NaN
     else if isInfinite a then (if isInfinite b \<and> a \<noteq> b then NaN else a)
     else if isInfinite b then b
     else if a = NegZero \<and> b = NegZero then NegZero
     else roundDouble (ratOf a + ratOf b))"

definition dsub :: "jsnum \<Rightarrow> jsnum \<Rightarrow> jsnum" where
  "dsub a b = dadd a (dneg b)"

definition dmul :: "jsnum \<Rightarrow> jsnum \<Rightarrow> jsnum" where
  "dmul a b =
    (let neg = (isNegative a \<noteq> isNegative b)
     in if a = NaN \<or> b = NaN then NaN
        else if isInfinite a \<or> isInfinite b
        then (if isZero a \<or> isZero b then NaN else signedInf neg)
        else if isZero a \<or> isZero b then signedZero neg
        else roundDouble (ratOf a * ratOf b))"

definition ddiv :: "jsnum \<Rightarrow> jsnum \<Rightarrow> jsnum" where
  "ddiv a b =
    (let neg = (isNegative a \<noteq> isNegative b)
     in if a = NaN \<or> b = NaN then NaN
        else if isInfinite a then (if isInfinite b then NaN else signedInf neg)
        else if isInfinite b then signedZero neg
        else if isZero b then (if isZero a then NaN else signedInf neg)
        else if isZero a then signedZero neg
        else roundDouble (ratOf a / ratOf b))"

text \<open>JavaScript \<^verbatim>\<open>a > b\<close> on Numbers: false as soon as one side is NaN.\<close>

definition dgreater :: "jsnum \<Rightarrow> jsnum \<Rightarrow> bool" where
  "dgreater a b =
    (if a = NaN \<or> b = NaN then False
     else if a = PosInf then b \<noteq> PosInf
     else if b = NegInf then a \<noteq> NegInf
     else if a = NegInf \<or> b = PosInf then False
     else ratOf b < ratOf a)"

text \<open>\<^verbatim>\<open>Math.pow(2, bits)\<close> for a non-negative integer \<open>bits\<close>.\<close>

definition mathPow2 :: "nat \<Rightarrow> jsnum" where
  "mathPow2 bits = (if bits < 1024 then Fin (2 ^ bits) else PosInf)"

subsection \<open>Typed-array element conversions\<close>

text \<open>
  Storing a Number into a \<^verbatim>\<open>Float32Array\<close> rounds it to binary32; \<open>toFloat32\<close> is the
  bit pattern that a \<^verbatim>\<open>Uint32Array\<close> on the same buffer reads back.  NaN is stored as
  the quiet NaN \<open>0x7FC00000\<close>.
\<close>

definition float32Bits :: "rat \<Rightarrow> 32 word" where
  "float32Bits q =
    (let r = roundToFormat 24 (- 126) q
     in if pow2 128 \<le> r then 0x7F800000
        else if r < pow2 (- 126) then word_of_int \<lfloor>r / pow2 (- 149)\<rfloor>
        else let e = ilog2 r
             in word_of_int ((e + 127) * 2 ^ 23 + (\<lfloor>r / pow2 (e - 23)\<rfloor> - 2 ^ 23)))"

fun toFloat32 :: "jsnum \<Rightarrow> 32 word" where
  "toFloat32 NaN = 0x7FC00000"
| "toFloat32 PosInf = 0x7F800000"
| "toFloat32 NegInf = 0xFF800000"
| "toFloat32 NegZero = 0x80000000"
| "toFloat32 (Fin q) =
    (if q = 0 then 0
     else if q < 0 then 0x80000000 OR float32Bits (- q)
     else float32Bits q)"

text \<open>Storing into a \<^verbatim>\<open>Uint8ClampedArray\<close>: clamp to \<open>[0, 255]\<close>, round half to even.\<close>

fun toUint8Clamp :: "jsnum \<Rightarrow> int" where
  "toUint8Clamp NaN = 0"
| "toUint8Clamp PosInf = 255"
| "toUint8Clamp NegInf = 0"
| "toUint8Clamp NegZero = 0"
| "toUint8Clamp (Fin q) = (if q \<le> 0 then 0 else if 255 \<le> q then 255 else roundHalfEven q)"

text \<open>Storing into a \<^verbatim>\<open>Uint8Array\<close>: truncate towards zero, then modulo 256.\<close>

definition truncRat :: "rat \<Rightarrow> int" where
  "truncRat q = (if q < 0 then - \<lfloor>- q\<rfloor> else \<lfloor>q\<rfloor>)"

fun toUint8 :: "jsnum \<Rightarrow> int" where
  "toUint8 (Fin q) = truncRat q mod 256"
| "toUint8 _ = 0"

text \<open>
  Reading element \<open>i\<close> of a typed array: \<open>None\<close> is \<^verbatim>\<open>undefined\<close>, the result of an
  index past the end.
\<close>

definition elemAt :: "'a list \<Rightarrow> nat \<Rightarrow> 'a option" where
  "elemAt xs i = (if i < length xs then Some (xs ! i) else None)"

text \<open>\<^verbatim>\<open>Number(v)\<close> of an element read and the store of an element read into a typed array.\<close>

definition numberOf :: "jsnum option \<Rightarrow> jsnum" where
  "numberOf v = (case v of None \<Rightarrow> NaN | Some x \<Rightarrow> x)"

section \<open>Half-float codec\<close>

text \<open>
  \<^verbatim>\<open>f32ToF16Bits\<close>, lines 122-162 of \<^verbatim>\<open>tiff.worker.js\<close>.  \<open>f32ToF16Bits_body\<close> is the
  function from the 32-bit pattern \<open>x\<close> on (lines 129-161): the bitwise operators work
  on \<^verbatim>\<open>ToInt32(x)\<close>, which is \<open>sint x\<close>, and \<^verbatim>\<open>>>\<close> is the arithmetic shift.
\<close>

definition f32ToF16Bits_body :: "32 word \<Rightarrow> int" where
  "f32ToF16Bits_body x =
    (let sign = drop_bit 31 (sint x) AND 0x1;
         exp = drop_bit 23 (sint x) AND 0xFF;
         mant = sint x AND 0x7FFFFF
     in if exp = 0xFF
        then (if mant \<noteq> 0 then push_bit 15 sign OR 0x7E00 else push_bit 15 sign OR 0x7C00)
        else if exp = 0 then push_bit 15 sign
        else let exp = exp - 127 + 15
             in if 0x1F \<le> exp then push_bit 15 sign OR 0x7C00
                else if exp \<le> 0 then push_bit 15 sign
                else let mant = mant + 0x00001000
                     in if mant AND 0x00800000 \<noteq> 0
                        then (let mant = 0; exp = exp + 1
                              in if 0x1F \<le> exp then push_bit 15 sign OR 0x7C00
                                 else push_bit 15 sign OR push_bit 10 exp OR drop_bit 13 mant)
                        else push_bit 15 sign OR push_bit 10 exp OR drop_bit 13 mant)"

definition f32ToF16Bits :: "jsnum \<Rightarrow> int" where
  "f32ToF16Bits val = f32ToF16Bits_body (toFloat32 val)"

text \<open>
  The value that a finite binary32 pattern denotes, as a magnitude: the exponent field
  \<open>e\<close> and the fraction field \<open>m\<close> give \<open>(2^23 + m) * 2^(e - 150)\<close>, or
  \<open>m * 2^(-149)\<close> for a subnormal.
\<close>

definition f32ExpField :: "32 word \<Rightarrow> nat" where
  "f32ExpField x = unat (drop_bit 23 x AND 0xFF)"

definition f32MantField :: "32 word \<Rightarrow> nat" where
  "f32MantField x = unat (x AND 0x7FFFFF)"

definition f32SignField :: "32 word \<Rightarrow> int" where
  "f32SignField x = (if bit x 31 then 1 else 0)"

definition f32Finite :: "32 word \<Rightarrow> bool" where
  "f32Finite x = (f32ExpField x \<noteq> 255)"

definition f32Magnitude :: "32 word \<Rightarrow> rat" where
  "f32Magnitude x =
    (if f32ExpField x = 0 then of_nat (f32MantField x) / 2 ^ 149
     else of_nat ((2 ^ 23 + f32MantField x) * 2 ^ f32ExpField x) / 2 ^ 150)"

text \<open>
  The value that a finite binary16 pattern denotes: sign bit, exponent field \<open>e\<close> and
  fraction field \<open>m\<close> give \<open>(1024 + m) * 2^(e - 25)\<close>, or \<open>m * 2^(-24)\<close> for a
  subnormal.
\<close>

definition f16Value :: "int \<Rightarrow> rat" where
  "f16Value bits =
    (let e = nat (bits div 1024 mod 32); m = bits mod 1024;
         mag = (if e = 0 then of_int m / 2 ^ 24 else of_int (1024 + m) * 2 ^ e / 2 ^ 25)
     in if bits div 32768 mod 2 = 1 then - mag else mag)"

text \<open>The typed-array constructors that the container reader can hand out.\<close>

datatype ctor =
    Uint8Array | Uint8ClampedArray | Int8Array
  | Uint16Array | Int16Array | Uint32Array | Int32Array
  | Float32Array | Float64Array

text \<open>A band is a typed array: its constructor and its elements in pixel order.\<close>

record band =
  ctor :: ctor
  samples :: "jsnum list"

text \<open>
  Photometric interpretation constants of \<^verbatim>\<open>tiff.worker.js\<close> (the table \<^verbatim>\<open>PI\<close>).
\<close>

definition PI_WhiteIsZero :: int where "PI_WhiteIsZero = 0"
definition PI_BlackIsZero :: int where "PI_BlackIsZero = 1"
definition PI_RGB :: int where "PI_RGB = 2"
definition PI_Palette :: int where "PI_Palette = 3"
definition PI_TransparencyMask :: int where "PI_TransparencyMask = 4"
definition PI_CMYK :: int where "PI_CMYK = 5"
definition PI_YCbCr :: int where "PI_YCbCr = 6"
definition PI_CIELab :: int where "PI_CIELab = 8"

text \<open>
  The raster as the worker sees it after \<^verbatim>\<open>reviveBands\<close>.  \<open>samplesPerPixel = 0\<close> stands
  for every falsy value of the field (absent or zero); \<open>bitsPerSample = None\<close> and
  \<open>photometricInterpretation = None\<close> stand for an absent field.
\<close>

record raster =
  width :: nat
  height :: nat
  bands :: "band list"
  samplesPerPixel :: nat
  bitsPerSample :: "nat list option"
  photometricInterpretation :: "int option"

datatype interp = InterpAuto | InterpImage | InterpData

datatype mode = Image | Data

text \<open>
  \<^verbatim>\<open>FormatOptions\<close> of \<^verbatim>\<open>options.js\<close>, every field optional (the field \<^verbatim>\<open>interpretation\<close> is \<open>interpretationOpt\<close>).  An entry of
  \<open>channels\<close> is a band index or \<open>None\<close> for \<^verbatim>\<open>null\<close>.
\<close>

record gpuPackingOptions =
  preferRGBA8 :: "bool option"
  forceRGBA16F :: "bool option"

record formatOptions =
  interpretationOpt :: "interp option"
  channels :: "int option list option"
  gpu :: "gpuPackingOptions option"

record rawTiffHints =
  imageIndex :: "int option"
  formatResolved :: "formatOptions option"
  formatHint :: "formatOptions option"

definition emptyFormat :: formatOptions where
  "emptyFormat = \<lparr> interpretationOpt = None, channels = None, gpu = None \<rparr>"

section \<open>Mode classifier\<close>

text \<open>
  \<^verbatim>\<open>inferFromTIFFTags\<close>, lines 92-116 of \<^verbatim>\<open>tiff.worker.js\<close>.
  \<open>effectiveSamplesPerPixel\<close> is its local \<^verbatim>\<open>spp\<close>.
\<close>

definition effectiveSamplesPerPixel :: "raster \<Rightarrow> nat" where
  "effectiveSamplesPerPixel raster =
    (if samplesPerPixel raster \<noteq> 0 then samplesPerPixel raster else length (bands raster))"

definition inferFromTIFFTags :: "raster \<Rightarrow> mode" where
  "inferFromTIFFTags raster =
    (let spp = effectiveSamplesPerPixel raster;
         phot = photometricInterpretation raster
     in if phot = Some PI_RGB \<or> phot = Some PI_YCbCr \<or> phot = Some PI_CMYK
           \<or> phot = Some PI_CIELab \<or> phot = Some PI_Palette then Image
        else if (phot = Some PI_BlackIsZero \<or> phot = Some PI_WhiteIsZero) \<and> spp = 1
        then Image
        else Data)"

text \<open>\<^verbatim>\<open>resolveFormatFromHints(hints) || {}\<close>.\<close>

definition resolveFormatFromHints :: "rawTiffHints \<Rightarrow> formatOptions option" where
  "resolveFormatFromHints hints =
    (case formatResolved hints of Some f \<Rightarrow> Some f | None \<Rightarrow> formatHint hints)"

definition resolvedFormat :: "rawTiffHints \<Rightarrow> formatOptions" where
  "resolvedFormat hints =
    (case resolveFormatFromHints hints of Some f \<Rightarrow> f | None \<Rightarrow> emptyFormat)"

text \<open>\<^verbatim>\<open>format.interpretation || "auto"\<close>.\<close>

definition configuredInterpretation :: "rawTiffHints \<Rightarrow> interp" where
  "configuredInterpretation hints =
    (case interpretationOpt (resolvedFormat hints) of Some i \<Rightarrow> i | None \<Rightarrow> InterpAuto)"

text \<open>
  The mode computed by \<^verbatim>\<open>rasterPayloadToTextureSet\<close> (lines 549-552 and the test of
  line 554): the configured interpretation, and the inferred mode under \<^verbatim>\<open>"auto"\<close>.
\<close>

definition textureSetMode :: "raster \<Rightarrow> rawTiffHints \<Rightarrow> mode" where
  "textureSetMode raster hints =
    (let interp = configuredInterpretation hints;
         inferred = inferFromTIFFTags raster
     in case interp of
          InterpAuto \<Rightarrow> inferred
        | InterpImage \<Rightarrow> Image
        | InterpData \<Rightarrow> Data)"

section \<open>GPU packer, data mode\<close>

datatype packFormat = RGBA8 | RGBA16F

text \<open>
  One pack of \<^verbatim>\<open>packBandsAsData\<close>.  \<open>pk_data\<close> is the typed array behind
  \<^verbatim>\<open>data.buffer\<close> (a \<^verbatim>\<open>Uint8Array\<close> for \<open>RGBA8\<close>, a \<^verbatim>\<open>Uint16Array\<close> for
  \<open>RGBA16F\<close>), \<open>pk_channels\<close> is \<^verbatim>\<open>packCh\<close>.
\<close>

record texturePack =
  pk_format :: packFormat
  pk_data :: "int list"
  pk_channels :: "int list"
  pk_normalized :: bool
  pk_scale :: "jsnum list"
  pk_offset :: "jsnum list"

record gpuTextureSet =
  ts_width :: nat
  ts_height :: nat
  ts_mode :: mode
  ts_channelCount :: nat
  ts_packs :: "texturePack list"

text \<open>\<^verbatim>\<open>raster.bands[c]\<close> for a channel entry \<open>c\<close>: \<^verbatim>\<open>undefined\<close> unless \<open>c\<close> indexes a band.\<close>

definition validBand :: "raster \<Rightarrow> int \<Rightarrow> bool" where
  "validBand raster bi = (0 \<le> bi \<and> bi < int (length (bands raster)))"

definition bandAt :: "raster \<Rightarrow> int option \<Rightarrow> band option" where
  "bandAt raster c =
    (case c of None \<Rightarrow> None
     | Some bi \<Rightarrow> if validBand raster bi then Some (bands raster ! nat bi) else None)"

definition isU8 :: "band \<Rightarrow> bool" where
  "isU8 b = (ctor b = Uint8Array \<or> ctor b = Uint8ClampedArray)"

definition isFloat :: "band \<Rightarrow> bool" where
  "isFloat b = (ctor b = Float32Array \<or> ctor b = Float64Array)"

text \<open>Lines 356-358: the two switches of \<^verbatim>\<open>format.gpu\<close>.\<close>

definition preferRGBA8_of :: "formatOptions \<Rightarrow> bool" where
  "preferRGBA8_of fmt =
    (case gpu fmt of None \<Rightarrow> True | Some g \<Rightarrow> preferRGBA8 g \<noteq> Some False)"

definition forceRGBA16F_of :: "formatOptions \<Rightarrow> bool" where
  "forceRGBA16F_of fmt =
    (case gpu fmt of None \<Rightarrow> False | Some g \<Rightarrow> forceRGBA16F g = Some True)"

text \<open>Lines 364-368: the active channel order and the logical channel count.\<close>

definition activeChannels :: "raster \<Rightarrow> formatOptions \<Rightarrow> int option list" where
  "activeChannels raster fmt =
    (let bandCount = length (bands raster)
     in case channels fmt of
          Some cs \<Rightarrow> if cs \<noteq> [] then cs else map (\<lambda>i. Some (int i)) [0..<bandCount]
        | None \<Rightarrow> map (\<lambda>i. Some (int i)) [0..<bandCount])"

definition countChannels :: "int option list \<Rightarrow> nat" where
  "countChannels cs = length (filter (\<lambda>c. case c of None \<Rightarrow> False | Some i \<Rightarrow> 0 \<le> i) cs)"

text \<open>Lines 371-375: one decision for the whole channel list.\<close>

definition allU8 :: "raster \<Rightarrow> int option list \<Rightarrow> bool" where
  "allU8 raster cs =
    list_all (\<lambda>c. case bandAt raster c of None \<Rightarrow> False | Some b \<Rightarrow> isU8 b) cs"

definition useRGBA8 :: "raster \<Rightarrow> formatOptions \<Rightarrow> bool" where
  "useRGBA8 raster fmt =
    (preferRGBA8_of fmt \<and> \<not> forceRGBA16F_of fmt \<and> allU8 raster (activeChannels raster fmt))"

text \<open>Lines 379-384: \<^verbatim>\<open>packCh\<close>, where \<^verbatim>\<open>channels[p + k] ?? -1\<close> pads with \<open>-1\<close>.\<close>

definition packChannels :: "int option list \<Rightarrow> nat \<Rightarrow> int list" where
  "packChannels cs p =
    map (\<lambda>k. case elemAt cs (p + k) of Some (Some c) \<Rightarrow> c | _ \<Rightarrow> - 1) [0..<4]"

text \<open>
  The element \<^verbatim>\<open>raster.bands[bi][i]\<close> read by both pixel loops, guarded by
  \<^verbatim>\<open>bi >= 0 && bi < raster.bands.length\<close>; \<open>None\<close> is the guard's \<open>0\<close> branch.
\<close>

definition bandSample :: "raster \<Rightarrow> int \<Rightarrow> nat \<Rightarrow> jsnum option option" where
  "bandSample raster bi i =
    (if validBand raster bi then Some (elemAt (samples (bands raster ! nat bi)) i) else None)"

text \<open>Lines 387-393: the byte written at pixel \<open>i\<close>, slot \<open>k\<close> of an RGBA8 pack.\<close>

definition byteSample :: "raster \<Rightarrow> int \<Rightarrow> nat \<Rightarrow> int" where
  "byteSample raster bi i =
    (case bandSample raster bi i of None \<Rightarrow> 0 | Some v \<Rightarrow> toUint8 (numberOf v))"

definition packDataRGBA8 :: "raster \<Rightarrow> int list \<Rightarrow> int list" where
  "packDataRGBA8 raster packCh =
    concat (map (\<lambda>i. map (\<lambda>k. byteSample raster (packCh ! k) i) [0..<4])
                [0..<width raster * height raster])"

text \<open>Lines 411-427: bits, maximum and scale of one slot.\<close>

definition bitsFor :: "raster \<Rightarrow> nat \<Rightarrow> nat option" where
  "bitsFor raster bi =
    (case bitsPerSample raster of
       None \<Rightarrow> Some 8
     | Some bps \<Rightarrow> if bi < length bps then Some (bps ! bi) else elemAt bps 0)"

definition sampleMax :: "nat option \<Rightarrow> jsnum" where
  "sampleMax bits =
    (case bits of
       Some b \<Rightarrow> if 0 < b then dsub (mathPow2 b) (Fin 1) else Fin 65535
     | None \<Rightarrow> Fin 65535)"

definition slotScale :: "raster \<Rightarrow> int \<Rightarrow> jsnum" where
  "slotScale raster bi =
    (if \<not> validBand raster bi then Fin 1
     else let bits = bitsFor raster (nat bi);
              band = bands raster ! nat bi
          in if \<not> isFloat band
             then (let mx = sampleMax bits in if dgreater mx (Fin 65504) then mx else Fin 1)
             else Fin 1)"

text \<open>
  Lines 431-443: the value stored at pixel \<open>i\<close> of a slot before the half-float
  encoding, with the flag that the clamp was taken, and the stored pattern.
\<close>

definition normalizedSample :: "raster \<Rightarrow> jsnum \<Rightarrow> int \<Rightarrow> nat \<Rightarrow> jsnum" where
  "normalizedSample raster scale bi i =
    (let v = (case bandSample raster bi i of None \<Rightarrow> Fin 0 | Some e \<Rightarrow> numberOf e)
     in if scale \<noteq> Fin 1 then ddiv v scale else v)"

definition clampHalf :: "jsnum \<Rightarrow> jsnum \<times> bool" where
  "clampHalf v =
    (if dgreater v (Fin 65504) then (Fin 65504, True)
     else if dgreater (Fin (- 65504)) v then (Fin (- 65504), True)
     else (v, False))"

definition halfSample :: "raster \<Rightarrow> jsnum \<Rightarrow> int \<Rightarrow> nat \<Rightarrow> int" where
  "halfSample raster scale bi i =
    f32ToF16Bits (fst (clampHalf (normalizedSample raster scale bi i)))"

definition packDataRGBA16F :: "raster \<Rightarrow> int list \<Rightarrow> int list" where
  "packDataRGBA16F raster packCh =
    concat (map (\<lambda>i. map (\<lambda>k. halfSample raster (slotScale raster (packCh ! k)) (packCh ! k) i)
                         [0..<4])
                [0..<width raster * height raster])"

definition packClamped :: "raster \<Rightarrow> int list \<Rightarrow> bool" where
  "packClamped raster packCh =
    (\<exists>i \<in> set [0..<width raster * height raster]. \<exists>k \<in> set [0..<4].
       snd (clampHalf (normalizedSample raster (slotScale raster (packCh ! k)) (packCh ! k) i)))"

text \<open>Lines 386-460: the pack built in one turn of the loop.\<close>

definition makePack :: "raster \<Rightarrow> bool \<Rightarrow> int list \<Rightarrow> texturePack" where
  "makePack raster rgba8 packCh =
    (if rgba8
     then \<lparr> pk_format = RGBA8, pk_data = packDataRGBA8 raster packCh,
            pk_channels = packCh, pk_normalized = False,
            pk_scale = [Fin 1, Fin 1, Fin 1, Fin 1],
            pk_offset = [Fin 0, Fin 0, Fin 0, Fin 0] \<rparr>
     else \<lparr> pk_format = RGBA16F, pk_data = packDataRGBA16F raster packCh,
            pk_channels = packCh, pk_normalized = False,
            pk_scale = map (slotScale raster) packCh,
            pk_offset = [Fin 0, Fin 0, Fin 0, Fin 0] \<rparr>)"

text \<open>
  The loop of line 378, \<^verbatim>\<open>for (let p = 0; p < channels.length; p += 4)\<close>, from the
  counter \<open>p\<close> on.
\<close>

function packsFrom :: "raster \<Rightarrow> bool \<Rightarrow> int option list \<Rightarrow> nat \<Rightarrow> texturePack list" where
  "packsFrom raster rgba8 cs p =
    (if p < length cs
     then makePack raster rgba8 (packChannels cs p) # packsFrom raster rgba8 cs (p + 4)
     else [])"
  by pat_completeness auto
termination
  by (relation "measure (\<lambda>(raster, rgba8, cs, p). length cs - p)") auto

declare packsFrom.simps [simp del]

text \<open>\<^verbatim>\<open>packBandsAsData\<close>, lines 355-464: the texture set it returns.\<close>

definition packBandsAsData :: "raster \<Rightarrow> formatOptions \<Rightarrow> gpuTextureSet" where
  "packBandsAsData raster fmt =
    (let cs = activeChannels raster fmt
     in \<lparr> ts_width = width raster, ts_height = height raster, ts_mode = Data,
          ts_channelCount = countChannels cs,
          ts_packs = packsFrom raster (useRGBA8 raster fmt) cs 0 \<rparr>)"

text \<open>
  The warnings it posts on the way (lines 446-451): one \<^verbatim>\<open>gpuPack_f16_clamp_worker\<close>
  message for every half-float pack in which a value was clamped.
\<close>

function clampWarningsFrom :: "raster \<Rightarrow> bool \<Rightarrow> int option list \<Rightarrow> nat \<Rightarrow> string list" where
  "clampWarningsFrom raster rgba8 cs p =
    (if p < length cs
     then (if \<not> rgba8 \<and> packClamped raster (packChannels cs p)
           then [''gpuPack_f16_clamp_worker''] else [])
          @ clampWarningsFrom raster rgba8 cs (p + 4)
     else [])"
  by pat_completeness auto
termination
  by (relation "measure (\<lambda>(raster, rgba8, cs, p). length cs - p)") auto

declare clampWarningsFrom.simps [simp del]

section \<open>Outcomes, decimal strings and insertion-ordered tables\<close>

text \<open>A call either returns a value or throws; \<open>Thrown\<close> carries the error's message.\<close>

datatype 'a outcome = Returned 'a | Thrown string

text \<open>The decimal text that a template literal inserts for an integer.\<close>

definition digitChar :: "nat \<Rightarrow> char" where
  "digitChar d = ''0123456789'' ! d"

fun showNat :: "nat \<Rightarrow> string" where
  "showNat n = (if n < 10 then [digitChar n] else showNat (n div 10) @ [digitChar (n mod 10)])"

declare showNat.simps [simp del]

definition showInt :: "int \<Rightarrow> string" where
  "showInt i = (if i < 0 then CHR ''-'' # showNat (nat (- i)) else showNat (nat i))"

text \<open>
  A JavaScript \<^verbatim>\<open>Map\<close> or the own properties of a plain object: entries in insertion
  order, one per key.  \<open>tableSet\<close> overwrites in place or appends, \<open>tableDelete\<close>
  removes, \<open>map_of\<close> reads.
\<close>

fun tableSet :: "'k \<Rightarrow> 'v \<Rightarrow> ('k \<times> 'v) list \<Rightarrow> ('k \<times> 'v) list" where
  "tableSet k v [] = [(k, v)]"
| "tableSet k v ((k', v') # kvs) =
     (if k = k' then (k, v) # kvs else (k', v') # tableSet k v kvs)"

definition tableDelete :: "'k \<Rightarrow> ('k \<times> 'v) list \<Rightarrow> ('k \<times> 'v) list" where
  "tableDelete k kvs = filter (\<lambda>kv. fst kv \<noteq> k) kvs"

section \<open>Warning dedup\<close>

text \<open>
  \<^verbatim>\<open>logOnce\<close> of \<^verbatim>\<open>consoleOnce.js\<close>.  \<open>echoOnce\<close> is the set of keys at which the
  module's table \<^verbatim>\<open>__rt_consoleEchoOnce\<close> reads truthy; \<open>consoleLog\<close> lists the calls
  \<^verbatim>\<open>console[mode](message)\<close> made so far, oldest first, each with the key that caused
  it.  A \<open>mode\<close> that names no console method makes the call throw, after the key was
  recorded.
\<close>

record consoleState =
  echoOnce :: "string set"
  consoleLog :: "(string \<times> string \<times> string) list"

definition isConsoleMethod :: "string \<Rightarrow> bool" where
  "isConsoleMethod mode = (mode \<in> set [''warn'', ''log'', ''error'', ''info'', ''debug''])"

definition logOnce ::
  "string \<Rightarrow> string \<Rightarrow> string \<Rightarrow> consoleState \<Rightarrow> unit outcome \<times> consoleState" where
  "logOnce key message mode st =
    (if key \<in> echoOnce st then (Returned (), st)
     else let st1 = st \<lparr> echoOnce := insert key (echoOnce st) \<rparr>
          in if isConsoleMethod mode
             then (Returned (), st1 \<lparr> consoleLog := consoleLog st1 @ [(key, mode, message)] \<rparr>)
             else (Thrown ''TypeError'', st1))"

text \<open>\<^verbatim>\<open>v || dflt\<close> for an optional string: absent and empty are falsy.\<close>

definition orDefault :: "string option \<Rightarrow> string \<Rightarrow> string" where
  "orDefault v dflt = (case v of None \<Rightarrow> dflt | Some s \<Rightarrow> if s = [] then dflt else s)"

text \<open>
  The callers of \<^verbatim>\<open>logOnce\<close> on the main thread: the \<^verbatim>\<open>warn\<close> branch of the pool's
  \<^verbatim>\<open>onmessage\<close> (lines 199-207 of the plugin), the channel check of
  \<^verbatim>\<open>rasterToRGBA8\<close> for a channel list of \<open>n\<close> entries (lines 740-747), and the
  worker-less fallback of \<^verbatim>\<open>__rt_tiffRasterToGpuTextureSet\<close> (line 629).
\<close>

definition onWarnMessage :: "string option \<Rightarrow> string option \<Rightarrow> consoleState \<Rightarrow> consoleState" where
  "onWarnMessage code message st =
    snd (logOnce (orDefault code ''RawTiffWorker_warn'')
                 (orDefault message ''[RawTiffWorker] warning'') ''warn'' st)"

definition renderChannelsCheck :: "nat \<Rightarrow> consoleState \<Rightarrow> consoleState" where
  "renderChannelsCheck n st =
    (if 4 < n
     then snd (logOnce ''renderChannels>4_to_RGBA''
                 (''[tiff] Requested '' @ showNat n @
                  '' channels for RGBA output; only 4 can be represented. Extra channels will be dropped.'')
                 ''warn'' st)
     else st)"

definition noWorkerFallbackWarning :: "consoleState \<Rightarrow> consoleState" where
  "noWorkerFallbackWarning st =
    snd (logOnce ''gpuTextureSet_no_worker''
           ''[RawTiffPlugin] No worker pool available; gpuTextureSet packing will fall back to worker-less path (slower).''
           ''warn'' st)"

text \<open>A run of the main thread, as far as the console is concerned.\<close>

datatype warnEvent =
    WorkerWarn "string option" "string option"
  | RenderChannels nat
  | NoWorkerFallback
  | LogOnce string string string

fun warnStep :: "warnEvent \<Rightarrow> consoleState \<Rightarrow> consoleState" where
  "warnStep (WorkerWarn code message) st = onWarnMessage code message st"
| "warnStep (RenderChannels n) st = renderChannelsCheck n st"
| "warnStep NoWorkerFallback st = noWorkerFallbackWarning st"
| "warnStep (LogOnce key message mode) st = snd (logOnce key message mode st)"

definition warnRun :: "warnEvent list \<Rightarrow> consoleState \<Rightarrow> consoleState" where
  "warnRun evs st = fold warnStep evs st"

definition surfaced :: "string \<Rightarrow> consoleState \<Rightarrow> nat" where
  "surfaced key st = length (filter (\<lambda>e. fst e = key) (consoleLog st))"

section \<open>Worker pool\<close>

text \<open>
  \<^verbatim>\<open>RawTiffWorkerPool\<close>.  A deferred is the index of its promise in \<open>promises\<close>;
  \<open>callbacks\<close> is the \<^verbatim>\<open>Map\<close> from request id to deferred.
\<close>

datatype 'r promise = Pending | Resolved 'r | Rejected string

record workerEntry =
  pending :: int
  callbacks :: "(nat \<times> nat) list"

record 'r mainThread =
  workers :: "workerEntry list"
  nextId :: nat
  promises :: "'r promise list"
  console :: consoleState

text \<open>The constructor, for a size already made a non-negative integer by \<^verbatim>\<open>size | 0\<close>.\<close>

definition newPool :: "nat \<Rightarrow> 'r mainThread" where
  "newPool poolSize =
    \<lparr> workers = replicate (max 1 poolSize) \<lparr> pending = 0, callbacks = [] \<rparr>,
      nextId = 1, promises = [],
      console = \<lparr> echoOnce = {}, consoleLog = [] \<rparr> \<rparr>"

text \<open>Settling a promise: only a pending promise changes.\<close>

definition settle :: "'r promise list \<Rightarrow> nat \<Rightarrow> 'r promise \<Rightarrow> 'r promise list" where
  "settle ps d v = (if d < length ps \<and> ps ! d = Pending then ps[d := v] else ps)"

text \<open>Lines 238-241: the first worker with the fewest pending requests.\<close>

definition leastLoaded :: "workerEntry list \<Rightarrow> nat" where
  "leastLoaded ws =
    fold (\<lambda>i best. if pending (ws ! i) < pending (ws ! best) then i else best)
         [0..<length ws] 0"

text \<open>
  \<^verbatim>\<open>request\<close>, lines 234-258.  \<open>postThrows\<close> says what \<^verbatim>\<open>postMessage\<close> does with the
  message: \<open>None\<close> when it returns, \<open>Some e\<close> when it throws \<open>e\<close>.  The result is the
  deferred whose promise is returned; with no worker left, \<^verbatim>\<open>best.pending++\<close> throws.
\<close>

definition request ::
  "string option \<Rightarrow> 'r mainThread \<Rightarrow> nat outcome \<times> 'r mainThread" where
  "request postThrows st =
    (let rid = nextId st;
         st1 = st \<lparr> nextId := rid + 1 \<rparr>;
         d = length (promises st1);
         st2 = st1 \<lparr> promises := promises st1 @ [Pending] \<rparr>
     in if workers st2 = [] then (Thrown ''TypeError'', st2)
        else let b = leastLoaded (workers st2);
                 w = workers st2 ! b;
                 w1 = w \<lparr> pending := pending w + 1,
                          callbacks := tableSet rid d (callbacks w) \<rparr>;
                 st3 = st2 \<lparr> workers := (workers st2)[b := w1] \<rparr>
             in case postThrows of
                  None \<Rightarrow> (Returned d, st3)
                | Some e \<Rightarrow>
                    (let w2 = w1 \<lparr> callbacks := tableDelete rid (callbacks w1),
                                    pending := max 0 (pending w1 - 1) \<rparr>
                     in (Returned d,
                         st3 \<lparr> workers := (workers st3)[b := w2],
                               promises := settle (promises st3) d (Rejected e) \<rparr>)))"

text \<open>
  The messages a worker sends: \<^verbatim>\<open>{kind: "warn", code, message}\<close> or
  \<^verbatim>\<open>{id, ok, result, error}\<close>.  \<open>onmessage w\<close> is the handler of worker \<open>w\<close>
  (lines 195-216), \<open>onerror w e\<close> its error handler (lines 217-223).
\<close>

datatype 'r workerMessage =
    WarnMessage "string option" "string option"
  | ReplyMessage nat bool 'r "string option"

definition errorToString :: "string option \<Rightarrow> string" where
  "errorToString err = orDefault err ''Unknown error''"

definition onmessage :: "nat \<Rightarrow> 'r workerMessage \<Rightarrow> 'r mainThread \<Rightarrow> 'r mainThread" where
  "onmessage w msg st =
    (case msg of
       WarnMessage code message \<Rightarrow> st \<lparr> console := onWarnMessage code message (console st) \<rparr>
     | ReplyMessage rid ok result err \<Rightarrow>
         (let entry = workers st ! w
          in case map_of (callbacks entry) rid of
               None \<Rightarrow> st
             | Some d \<Rightarrow>
                 (let entry1 = entry \<lparr> callbacks := tableDelete rid (callbacks entry),
                                        pending := max 0 (pending entry - 1) \<rparr>
                  in st \<lparr> workers := (workers st)[w := entry1],
                          promises := settle (promises st) d
                            (if ok then Resolved result else Rejected (errorToString err)) \<rparr>)))"

definition onerror :: "nat \<Rightarrow> string \<Rightarrow> 'r mainThread \<Rightarrow> 'r mainThread" where
  "onerror w e st =
    (let entry = workers st ! w
     in st \<lparr> workers := (workers st)[w := entry \<lparr> callbacks := [], pending := 0 \<rparr>],
             promises := fold (\<lambda>d ps. settle ps d (Rejected e))
                              (map snd (callbacks entry)) (promises st) \<rparr>)"

text \<open>
  The bookkeeping invariant: no pending count is negative and every id in a
  correlation table was issued, that is, lies below \<open>nextId\<close>.
\<close>

definition poolInvariant :: "'r mainThread \<Rightarrow> bool" where
  "poolInvariant st =
    list_all (\<lambda>w. 0 \<le> pending w \<and> list_all (\<lambda>kv. fst kv < nextId st) (callbacks w))
             (workers st)"

section \<open>Raster decoder\<close>

text \<open>
  What the container reader hands to \<^verbatim>\<open>decodeRasterFromArrayBuffer\<close>: the bytes are
  either unreadable (\<^verbatim>\<open>fromArrayBuffer\<close> throws) or a list of images, each with
  its dimensions, tags and the outcome of \<^verbatim>\<open>readRasters\<close>.  The tag dictionary, the
  colour map and the sample format are handed through unread and are left out.
\<close>

record tiffImage =
  imgWidth :: nat
  imgHeight :: nat
  imgSamplesPerPixel :: nat
  imgBitsPerSample :: "nat list"
  imgPhotometric :: "int option"
  imgRasters :: "band list outcome"

datatype container = Unreadable string | Images "tiffImage list"

text \<open>Lines 482-515: reading the chosen image into a raster payload.\<close>

definition readImage :: "tiffImage \<Rightarrow> raster outcome" where
  "readImage img =
    (case imgRasters img of
       Thrown e \<Rightarrow> Thrown e
     | Returned bs \<Rightarrow>
         Returned \<lparr> width = imgWidth img, height = imgHeight img, bands = bs,
                    samplesPerPixel = max (imgSamplesPerPixel img) (length bs),
                    bitsPerSample = Some (imgBitsPerSample img),
                    photometricInterpretation = imgPhotometric img \<rparr>)"

text \<open>\<^verbatim>\<open>decodeRasterFromArrayBuffer\<close>, lines 466-516.\<close>

definition decodeRasterFromArrayBuffer :: "container \<Rightarrow> rawTiffHints \<Rightarrow> raster outcome" where
  "decodeRasterFromArrayBuffer ab hints =
    (case ab of
       Unreadable e \<Rightarrow> Thrown e
     | Images imgs \<Rightarrow>
         (let count = int (length imgs)
          in if count \<noteq> 1
             then (case imageIndex hints of
                     None \<Rightarrow>
                       Thrown (''[RawTiffPlugin] TIFF has '' @ showInt count @
                               '' images; provide rawTiff.hints.imageIndex to decode.'')
                   | Some i \<Rightarrow>
                       if i < 0 \<or> count \<le> i
                       then Thrown (''[RawTiffPlugin] imageIndex '' @ showInt i @
                                    '' out of range (0..'' @ showInt (count - 1) @ '').'')
                       else readImage (imgs ! nat i))
             else readImage (imgs ! 0)))"

text \<open>
  The replies of the worker: \<^verbatim>\<open>{id, ok: true, result}\<close> and
  \<^verbatim>\<open>{id, ok: false, error}\<close>.  \<open>errorToPlain\<close> is applied to a caught \<^verbatim>\<open>Error\<close> with
  the given message; an empty message falls through to \<^verbatim>\<open>JSON.stringify\<close>.
\<close>

datatype 'r workerReply = ReplyOk nat 'r | ReplyError nat string

definition errorToPlain :: "string \<Rightarrow> string" where
  "errorToPlain message = (if message \<noteq> [] then message else ''{}'')"

text \<open>
  The \<^verbatim>\<open>decodeRaster\<close> branch of the worker's \<^verbatim>\<open>onmessage\<close> (lines 585-591) under its
  \<^verbatim>\<open>catch\<close> (lines 628-630): the messages it posts for request \<open>rid\<close>.
\<close>

definition onDecodeRaster :: "nat \<Rightarrow> container \<Rightarrow> rawTiffHints \<Rightarrow> raster workerReply list" where
  "onDecodeRaster rid ab hints =
    (case decodeRasterFromArrayBuffer ab hints of
       Returned result \<Rightarrow> [ReplyOk rid result]
     | Thrown e \<Rightarrow> [ReplyError rid (errorToPlain e)])"

section \<open>Format resolver\<close>

text \<open>
  Configuration values.  A plain object is the list of its own enumerable properties in
  property order: the keys that are array indices in ascending numeric order, then the
  other keys in the order of their creation.  Every object has the prototype
  \<^verbatim>\<open>Object.prototype\<close>, as the objects of an object literal and of \<^verbatim>\<open>JSON.parse\<close> have.
\<close>

datatype json =
    JNull | JBool bool | JNum int | JStr string
  | JArr "json list" | JObj "(string \<times> json) list"

text \<open>
  Property order.  \<open>arrayIndex k\<close> is the number that the key \<open>k\<close> denotes when it is an
  array index, a canonical decimal numeral of at most \<open>2^32 - 2\<close>; \<open>precedes k k'\<close> says
  that a new key \<open>k\<close> is placed before the existing key \<open>k'\<close>; \<open>inOrder\<close> says that a
  list of keys is in property order.
\<close>

definition digitValue :: "char \<Rightarrow> nat option" where
  "digitValue c = map_of (zip ''0123456789'' [0, 1, 2, 3, 4, 5, 6, 7, 8, 9]) c"

fun parseDigits :: "nat \<Rightarrow> string \<Rightarrow> nat option" where
  "parseDigits acc [] = Some acc"
| "parseDigits acc (c # cs) =
     (case digitValue c of None \<Rightarrow> None | Some d \<Rightarrow> parseDigits (10 * acc + d) cs)"

definition arrayIndex :: "string \<Rightarrow> nat option" where
  "arrayIndex k =
    (case parseDigits 0 k of
       None \<Rightarrow> None
     | Some n \<Rightarrow> if showNat n = k \<and> n \<le> 4294967294 then Some n else None)"

definition precedes :: "string \<Rightarrow> string \<Rightarrow> bool" where
  "precedes k k' =
    (case arrayIndex k of
       None \<Rightarrow> False
     | Some n \<Rightarrow> (case arrayIndex k' of None \<Rightarrow> True | Some m \<Rightarrow> n < m))"

fun inOrder :: "string list \<Rightarrow> bool" where
  "inOrder [] = True"
| "inOrder (k # ks) = ((\<forall>k' \<in> set ks. \<not> precedes k' k) \<and> inOrder ks)"

text \<open>
  The assignment \<^verbatim>\<open>out[k] = v\<close>.  An own property is overwritten in place, and a new key
  becomes an own property at its place in property order (\<open>setProperty\<close>).  The key
  \<^verbatim>\<open>__proto__\<close>, when it is not an own property, reaches the accessor of
  \<^verbatim>\<open>Object.prototype\<close> instead: an object, an array or \<^verbatim>\<open>null\<close> replaces the prototype
  of \<open>out\<close>, and every other value is ignored.  An object whose prototype has been
  replaced is not a list of own properties over \<^verbatim>\<open>Object.prototype\<close>: there is no value
  for it here and the result is \<open>None\<close>.
\<close>

fun insertProperty :: "string \<Rightarrow> json \<Rightarrow> (string \<times> json) list \<Rightarrow> (string \<times> json) list" where
  "insertProperty k v [] = [(k, v)]"
| "insertProperty k v ((k', v') # rest) =
     (if precedes k k' then (k, v) # (k', v') # rest else (k', v') # insertProperty k v rest)"

definition setProperty :: "string \<Rightarrow> json \<Rightarrow> (string \<times> json) list \<Rightarrow> (string \<times> json) list" where
  "setProperty k v props =
    (if k \<in> set (map fst props) then tableSet k v props else insertProperty k v props)"

definition assignValue ::
  "string \<Rightarrow> json \<Rightarrow> (string \<times> json) list \<Rightarrow> (string \<times> json) list option" where
  "assignValue k v out =
    (if k = ''__proto__'' \<and> k \<notin> set (map fst out)
     then (case v of JNull \<Rightarrow> None | JArr xs \<Rightarrow> None | JObj kvs \<Rightarrow> None | _ \<Rightarrow> Some out)
     else Some (setProperty k v out))"

text \<open>
  \<^verbatim>\<open>Object.assign({}, a)\<close>: the own properties of \<open>a\<close> are assigned, one after the other,
  to a fresh object.
\<close>

fun assignAll ::
  "(string \<times> json) list \<Rightarrow> (string \<times> json) list \<Rightarrow> (string \<times> json) list option" where
  "assignAll out [] = Some out"
| "assignAll out ((k, v) # rest) =
     Option.bind (assignValue k v out) (\<lambda>out'. assignAll out' rest)"

definition objectAssign :: "(string \<times> json) list \<Rightarrow> (string \<times> json) list option" where
  "objectAssign a = assignAll [] a"

text \<open>
  \<^verbatim>\<open>deepMerge\<close>, lines 325-337 of the plugin, for a plain object \<open>a\<close>, which is what
  every call passes.  \<open>mergeInto out b\<close> is the loop over the entries of \<open>b\<close>: the value
  \<open>nv\<close> assigned at the key \<open>k\<close> is the merge of \<^verbatim>\<open>out[k]\<close> with \<open>bv\<close> when both are
  plain objects (the recursive call copies \<^verbatim>\<open>out[k]\<close> first), and \<open>bv\<close> otherwise.  A
  key that is not an own property of \<open>out\<close> reads as \<^verbatim>\<open>undefined\<close> or as a function of
  \<^verbatim>\<open>Object.prototype\<close>, neither of which is an object; the key \<^verbatim>\<open>__proto__\<close> reads as
  the prototype, and the assignment that follows replaces the prototype in either
  branch.  An array \<open>b\<close> is looped over by its indices; any other \<open>b\<close> returns the copy
  of \<open>a\<close>.
\<close>

function (sequential) mergeInto ::
  "(string \<times> json) list \<Rightarrow> (string \<times> json) list \<Rightarrow> (string \<times> json) list option" where
  "mergeInto out [] = Some out"
| "mergeInto out ((k, bv) # rest) =
     (let nv = (case bv of
                  JObj bo \<Rightarrow>
                    (case map_of out k of
                       Some (JObj ao) \<Rightarrow>
                         (case objectAssign ao of
                            None \<Rightarrow> None
                          | Some copy \<Rightarrow> map_option JObj (mergeInto copy bo))
                     | _ \<Rightarrow> Some bv)
                | _ \<Rightarrow> Some bv)
      in case nv of
           None \<Rightarrow> None
         | Some v \<Rightarrow>
             (case assignValue k v out of None \<Rightarrow> None | Some out' \<Rightarrow> mergeInto out' rest))"
  by pat_completeness auto

termination
  by (relation "measure (\<lambda>(out, b). size_list (size_prod (\<lambda>k. 0) size) b)") auto

declare mergeInto.simps [simp del]

definition deepMerge :: "(string \<times> json) list \<Rightarrow> json \<Rightarrow> (string \<times> json) list option" where
  "deepMerge a b =
    Option.bind (objectAssign a)
      (\<lambda>out. case b of
                JObj bo \<Rightarrow> mergeInto out bo
              | JArr xs \<Rightarrow> mergeInto out (zip (map showNat [0..<length xs]) xs)
              | _ \<Rightarrow> Some out)"

text \<open>The value that the turn for key \<open>k\<close> and value \<open>bv\<close> assigns at \<open>k\<close>.\<close>

definition newValue :: "(string \<times> json) list \<Rightarrow> string \<Rightarrow> json \<Rightarrow> json option" where
  "newValue out k bv =
    (case bv of
       JObj bo \<Rightarrow>
         (case map_of out k of
            Some (JObj ao) \<Rightarrow> map_option JObj (deepMerge ao (JObj bo))
          | _ \<Rightarrow> Some bv)
     | _ \<Rightarrow> Some bv)"

text \<open>
  A configuration value without the key \<^verbatim>\<open>__proto__\<close>: every object reachable through
  objects lists each key once and in property order, as every object does, and none
  of them has the key \<^verbatim>\<open>__proto__\<close>.
\<close>

fun plainConfig :: "json \<Rightarrow> bool" where
  "plainConfig (JObj kvs) =
     (distinct (map fst kvs) \<and> inOrder (map fst kvs) \<and> ''__proto__'' \<notin> set (map fst kvs)
      \<and> list_all (\<lambda>kv. plainConfig (snd kv)) kvs)"
| "plainConfig _ = True"

section \<open>Colour-space converter\<close>

text \<open>A numeric literal of the source: the binary64 value nearest to the decimal.\<close>

definition literal :: "rat \<Rightarrow> jsnum" where
  "literal q = roundDouble q"

text \<open>
  The three expressions of \<^verbatim>\<open>RGBAfromYCbCr\<close> (lines 49-51 and 66-68), evaluated left
  to right in binary64, before the store into the \<^verbatim>\<open>Uint8ClampedArray\<close>.
\<close>

definition redValue :: "rat \<Rightarrow> jsnum \<Rightarrow> jsnum \<Rightarrow> jsnum" where
  "redValue k y cr = dadd y (dmul (literal k) (dsub cr (Fin 128)))"

definition greenValue :: "rat \<Rightarrow> rat \<Rightarrow> jsnum \<Rightarrow> jsnum \<Rightarrow> jsnum \<Rightarrow> jsnum" where
  "greenValue k1 k2 y cb cr =
    dsub (dsub y (dmul (literal k1) (dsub cb (Fin 128))))
         (dmul (literal k2) (dsub cr (Fin 128)))"

definition blueValue :: "rat \<Rightarrow> jsnum \<Rightarrow> jsnum \<Rightarrow> jsnum" where
  "blueValue k y cb = dadd y (dmul (literal k) (dsub cb (Fin 128)))"

text \<open>The four bytes written for one pixel.\<close>

definition ycbcrPixel :: "jsnum \<Rightarrow> jsnum \<Rightarrow> jsnum \<Rightarrow> int list" where
  "ycbcrPixel y cb cr =
    [toUint8Clamp (redValue (1402 / 1000) y cr),
     toUint8Clamp (greenValue (34414 / 100000) (71414 / 100000) y cb cr),
     toUint8Clamp (blueValue (1772 / 1000) y cb),
     255]"

text \<open>
  Writing at index \<open>j\<close> of a typed array: ignored past the end.  \<open>writePixel\<close> is the
  four stores of one turn of either loop.
\<close>

definition storeAt :: "int list \<Rightarrow> nat \<Rightarrow> int \<Rightarrow> int list" where
  "storeAt xs j v = (if j < length xs then xs[j := v] else xs)"

definition writePixel :: "int list \<Rightarrow> nat \<Rightarrow> int list \<Rightarrow> int list" where
  "writePixel out j px =
    storeAt (storeAt (storeAt (storeAt out j (px ! 0)) (j + 1) (px ! 1)) (j + 2) (px ! 2))
            (j + 3) (px ! 3)"

text \<open>The interleaved form, lines 41-55: the loop from \<open>i\<close>, \<open>j\<close> on, and the call.\<close>

function ycbcrInterleavedFrom :: "jsnum list \<Rightarrow> nat \<Rightarrow> nat \<Rightarrow> int list \<Rightarrow> int list" where
  "ycbcrInterleavedFrom input i j out =
    (if i < length input
     then ycbcrInterleavedFrom input (i + 3) (j + 4)
            (writePixel out j
               (ycbcrPixel (numberOf (elemAt input i)) (numberOf (elemAt input (i + 1)))
                           (numberOf (elemAt input (i + 2)))))
     else out)"
  by pat_completeness auto
termination
  by (relation "measure (\<lambda>(input, i, j, out). length input - i)") auto

declare ycbcrInterleavedFrom.simps [simp del]

definition RGBAfromYCbCr_interleaved :: "jsnum list \<Rightarrow> int list" where
  "RGBAfromYCbCr_interleaved input =
    ycbcrInterleavedFrom input 0 0 (replicate (length input * 4 div 3) 0)"

text \<open>The planar form, lines 58-71.\<close>

function ycbcrPlanarFrom ::
  "jsnum list \<Rightarrow> jsnum list \<Rightarrow> jsnum list \<Rightarrow> nat \<Rightarrow> nat \<Rightarrow> int list \<Rightarrow> int list" where
  "ycbcrPlanarFrom y cb cr i j out =
    (if i < length y
     then ycbcrPlanarFrom y cb cr (i + 1) (j + 4)
            (writePixel out j
               (ycbcrPixel (numberOf (elemAt y i)) (numberOf (elemAt cb i))
                           (numberOf (elemAt cr i))))
     else out)"
  by pat_completeness auto
termination
  by (relation "measure (\<lambda>(y, cb, cr, i, j, out). length y - i)") auto

declare ycbcrPlanarFrom.simps [simp del]

definition RGBAfromYCbCr_planar :: "jsnum list \<Rightarrow> jsnum list \<Rightarrow> jsnum list \<Rightarrow> int list" where
  "RGBAfromYCbCr_planar y cb cr =
    ycbcrPlanarFrom y cb cr 0 0 (replicate (length y * 4) 0)"

text \<open>
  \<^verbatim>\<open>RGBAfromYCbCr(...args)\<close>: one argument selects the interleaved form; otherwise the
  first three arguments are the bands, and a missing band throws as soon as it is
  indexed or measured.
\<close>

fun RGBAfromYCbCr :: "jsnum list list \<Rightarrow> int list outcome" where
  "RGBAfromYCbCr [input] = Returned (RGBAfromYCbCr_interleaved input)"
| "RGBAfromYCbCr (y # cb # cr # rest) = Returned (RGBAfromYCbCr_planar y cb cr)"
| "RGBAfromYCbCr [y, cb] = (if y = [] then Returned [] else Thrown ''TypeError'')"
| "RGBAfromYCbCr [] = Thrown ''TypeError''"

text \<open>
  The conversion as the specification words it: the green channel with the
  coefficients 0.344136 and 0.714136, as an exact value, clamped to a byte.
\<close>

definition specGreen :: "rat \<Rightarrow> rat \<Rightarrow> rat \<Rightarrow> int" where
  "specGreen y cb cr =
    toUint8Clamp (Fin (y - 344136 / 1000000 * (cb - 128) - 714136 / 1000000 * (cr - 128)))"

section \<open>Example rasters\<close>


abbreviation sixByteRaster :: raster where
  "sixByteRaster \<equiv>
     \<lparr> width = 1, height = 1,
       bands = [\<lparr> ctor = Uint8Array, samples = [Fin 10] \<rparr>,
                \<lparr> ctor = Uint8Array, samples = [Fin 20] \<rparr>,
                \<lparr> ctor = Uint8Array, samples = [Fin 30] \<rparr>,
                \<lparr> ctor = Uint8Array, samples = [Fin 40] \<rparr>,
                \<lparr> ctor = Uint8Array, samples = [Fin 50] \<rparr>,
                \<lparr> ctor = Uint8Array, samples = [Fin 60] \<rparr>],
       samplesPerPixel = 6, bitsPerSample = Some [8],
       photometricInterpretation = None \<rparr>"

abbreviation twelveBitRaster :: raster where
  "twelveBitRaster \<equiv>
     \<lparr> width = 1, height = 1,
       bands = [\<lparr> ctor = Uint16Array, samples = [Fin 4095] \<rparr>],
       samplesPerPixel = 1, bitsPerSample = Some [12],
       photometricInterpretation = None \<rparr>"

abbreviation forceHalfFormat :: formatOptions where
  "forceHalfFormat \<equiv>
     \<lparr> interpretationOpt = Some InterpData, channels = None,
       gpu = Some \<lparr> preferRGBA8 = None, forceRGBA16F = Some True \<rparr> \<rparr>"

text \<open>The console of a freshly loaded module.\<close>

abbreviation freshConsole :: consoleState where
  "freshConsole \<equiv> \<lparr> echoOnce = {}, consoleLog = [] \<rparr>"

text \<open>
  A one-pixel raster of 8-bit bands with the given photometric tag, sample count and
  number of bands.
\<close>

abbreviation taggedRaster :: "int option \<Rightarrow> nat \<Rightarrow> nat \<Rightarrow> raster" where
  "taggedRaster tag spp n \<equiv>
     \<lparr> width = 1, height = 1,
       bands = replicate n \<lparr> ctor = Uint8Array, samples = [Fin 7] \<rparr>,
       samplesPerPixel = spp, bitsPerSample = Some [8],
       photometricInterpretation = tag \<rparr>"

text \<open>A one-pixel grayscale image as the container reader returns it.\<close>

abbreviation grayImage :: tiffImage where
  "grayImage \<equiv>
     \<lparr> imgWidth = 1, imgHeight = 1, imgSamplesPerPixel = 1, imgBitsPerSample = [8],
       imgPhotometric = Some 1,
       imgRasters = Returned [\<lparr> ctor = Uint8Array, samples = [Fin 128] \<rparr>] \<rparr>"

abbreviation hintsWithIndex :: "int option \<Rightarrow> rawTiffHints" where
  "hintsWithIndex i \<equiv> \<lparr> imageIndex = i, formatResolved = None, formatHint = None \<rparr>"

text \<open>
  \<^verbatim>\<open>defaultFormat\<close> of \<^verbatim>\<open>options.js\<close> and an override that sets a channel list and
  forces half-float packing.
\<close>

abbreviation defaultFormat :: "(string \<times> json) list" where
  "defaultFormat \<equiv>
     [(''interpretation'', JStr ''auto''),
      (''channels'', JNull),
      (''gpu'', JObj [(''preferRGBA8'', JBool True), (''forceRGBA16F'', JBool False),
                      (''packMode'', JStr ''packsOf4'')]),
      (''image'', JObj [(''rgbaChannels'', JNull)]),
      (''hints'', JObj [(''layout'', JObj [(''pyramid'', JStr ''auto''), (''planeIndex'', JNum 0),
                                          (''prefer'', JStr ''pyramid'')])])]"

abbreviation overrideFormat :: json where
  "overrideFormat \<equiv>
     JObj [(''channels'', JArr [JNum 2, JNum 0]),
           (''gpu'', JObj [(''forceRGBA16F'', JBool True)]),
           (''image'', JNull)]"

text \<open>An object and a layer with keys that are array indices.\<close>

abbreviation indexedObject :: "(string \<times> json) list" where
  "indexedObject \<equiv> [(''1'', JObj [(''x'', JNum 1)]), (''b'', JNum 1)]"

abbreviation indexedLayer :: json where
  "indexedLayer \<equiv>
     JObj [(''0'', JNum 3), (''1'', JObj [(''y'', JNum 2)]), (''10'', JNum 2), (''01'', JNum 5)]"

section \<open>Evaluating Number arithmetic\<close>

text \<open>Rewrite rules that let the simplifier compute the rounding functions on numerals.\<close>

lemma floor_rat_numeral [simp]:
  "\<lfloor>(numeral a :: rat) / numeral b\<rfloor> = numeral a div numeral b"
  by (metis floor_divide_of_int_eq of_int_numeral)

lemma floor_rat_one_numeral [simp]:
  "\<lfloor>(1 :: rat) / numeral b\<rfloor> = 1 div numeral b"
  by (metis floor_divide_of_int_eq of_int_numeral of_int_1)

lemma ceiling_rat_numeral [simp]:
  "\<lceil>(numeral a :: rat) / numeral b\<rceil> = - (- numeral a div numeral b)"
  by (metis ceiling_def floor_divide_of_int_eq minus_divide_left of_int_minus of_int_numeral)

lemma bitlen_0 [simp]: "bitlen 0 = 0"
  by (subst bitlen.simps) simp

lemma bitlen_1 [simp]: "bitlen 1 = 1"
  by (subst bitlen.simps) simp

lemma bitlen_numeral [simp]: "bitlen (numeral n) = 1 + bitlen (numeral n div 2)"
  by (subst bitlen.simps) simp

lemmas round_defs =
  roundDouble_def roundToFormat_def ilog2_def pow2_def roundHalfEven_def Let_def

lemmas arith_defs =
  dadd_def dsub_def dmul_def ddiv_def dgreater_def signedZero_def signedInf_def mathPow2_def

lemmas float32_defs =
  float32Bits_def roundToFormat_def ilog2_def pow2_def roundHalfEven_def Let_def

section \<open>Properties of the half-float codec\<close>

text \<open>The three fields that the code extracts are the fields of the pattern.\<close>

lemma mask_numerals: "(0x7FFFFF::int) = mask 23" "(0x7FFFFF::32 word) = mask 23" "(0xFF :: int) = mask 8" "(0xFF :: 32 word) = mask 8" "(0x1::int) = mask 1"
  by (simp_all add: mask_eq_exp_minus_1)

lemma mant_field_int: "sint (x::32 word) AND 0x7FFFFF = int (f32MantField x)"
  unfolding f32MantField_def mask_numerals of_nat_unat
  by (rule bit_eqI) (auto simp add: bit_simps bit_sint_iff bit_uint_iff)

lemma exp_field_int: "drop_bit 23 (sint (x::32 word)) AND 0xFF = int (f32ExpField x)"
  unfolding f32ExpField_def mask_numerals of_nat_unat
  by (rule bit_eqI) (auto simp add: bit_simps bit_sint_iff bit_uint_iff)

lemma sign_field_int: "drop_bit 31 (sint (x::32 word)) AND 0x1 = f32SignField x"
  unfolding f32SignField_def mask_numerals
  by (rule bit_eqI) (auto simp add: bit_simps bit_sint_iff bit_uint_iff bit_1_iff)

lemma exp_field_lt_int: "int (f32ExpField x) < 256"
proof -
  have "uint (drop_bit 23 x AND mask 8) < 2 ^ 8" by (rule and_mask_lt_2p)
  then show ?thesis unfolding f32ExpField_def mask_numerals of_nat_unat by simp
qed
lemma mant_field_lt_int: "int (f32MantField x) < 8388608"
proof -
  have "uint (x AND mask 23) < 2 ^ 23" by (rule and_mask_lt_2p)
  then show ?thesis unfolding f32MantField_def mask_numerals of_nat_unat by simp
qed
lemma exp_field_lt: "f32ExpField x < 256"
  using exp_field_lt_int [of x] by linarith
lemma mant_field_lt: "f32MantField x < 8388608"
  using mant_field_lt_int [of x] by linarith


lemma rounding_carry_iff:
  assumes "0 \<le> m" "m < 8388608"
  shows "((m + 0x00001000) AND 0x00800000 \<noteq> 0) = (0x7FF000 \<le> (m::int))"
proof -
  have e: "(0x00800000::int) = 2 ^ 23" by simp
  have "((m + 4096) AND 2 ^ 23 \<noteq> 0) = bit (m + 4096) 23"
    using and_exp_eq_0_iff_not_bit [of "m + 4096" 23] by simp
  also have "\<dots> = odd ((m + 4096) div 2 ^ 23)" by (simp add: bit_iff_odd)
  also have "\<dots> = (0x7FF000 \<le> m)"
  proof (cases "0x7FF000 \<le> m")
    case True
    then have "(m + 4096) div 2 ^ 23 = 1" using assms by simp
    then show ?thesis using True by simp
  next
    case False
    then have "(m + 4096) div 2 ^ 23 = 0" using assms by simp
    then show ?thesis using False by simp
  qed
  finally show ?thesis unfolding e by simp
qed

lemma magnitude_ge_65520:
  assumes fin: "f32Finite x" and big: "65520 \<le> f32Magnitude x"
  shows "143 \<le> f32ExpField x \<or> (f32ExpField x = 142 \<and> 0x7FF000 \<le> f32MantField x)"
proof (rule ccontr)
  assume neg: "\<not> ?thesis"
  let ?E = "f32ExpField x" and ?M = "f32MantField x"
  have M: "?M < 8388608" by (rule mant_field_lt)
  consider "?E = 0" | "1 \<le> ?E" "?E \<le> 141" | "?E = 142" "?M < 0x7FF000"
    using neg by fastforce
  then have "f32Magnitude x < 65520"
  proof cases
    case 1
    have "(of_nat ?M :: rat) < 8388608" using M by simp
    then have "(of_nat ?M :: rat) / 2 ^ 149 < 8388608 / 2 ^ 149"
      by (rule divide_strict_right_mono) simp
    also have "\<dots> < 65520" by simp
    finally show ?thesis using 1 by (simp add: f32Magnitude_def)
  next
    case 2
    have "(2 ^ 23 + ?M) * 2 ^ ?E \<le> (2 ^ 24) * (2 ^ 141 :: nat)"
      using M 2 by (intro mult_mono power_increasing) simp_all
    then have "(of_nat ((2 ^ 23 + ?M) * 2 ^ ?E) :: rat) \<le> of_nat (2 ^ 24 * 2 ^ 141)"
      by (simp only: of_nat_le_iff)
    then have "(of_nat ((2 ^ 23 + ?M) * 2 ^ ?E) :: rat) / 2 ^ 150 \<le> of_nat (2 ^ 24 * 2 ^ 141) / 2 ^ 150"
      by (rule divide_right_mono) simp
    also have "\<dots> < (65520 :: rat)" by simp
    finally show ?thesis using 2 by (simp add: f32Magnitude_def)
  next
    case 3
    have "(2 ^ 23 + ?M) * 2 ^ 142 < (2 ^ 23 + 0x7FF000) * (2 ^ 142 :: nat)"
      using 3 by simp
    then have "(of_nat ((2 ^ 23 + ?M) * 2 ^ 142) :: rat) < of_nat ((2 ^ 23 + 0x7FF000) * 2 ^ 142)"
      by (simp only: of_nat_less_iff)
    then have "(of_nat ((2 ^ 23 + ?M) * 2 ^ 142) :: rat) / 2 ^ 150 < of_nat ((2 ^ 23 + 0x7FF000) * 2 ^ 142) / 2 ^ 150"
      by (rule divide_strict_right_mono) simp
    also have "\<dots> = (65520 :: rat)" by simp
    finally show ?thesis using 3 by (simp add: f32Magnitude_def)
  qed
  with big show False by simp
qed



lemma magnitude_ge_pow:
  assumes "k \<le> f32ExpField x" "1 \<le> k"
  shows "(2 ^ 23 * 2 ^ k :: rat) / 2 ^ 150 \<le> f32Magnitude x"
proof -
  let ?E = "f32ExpField x" and ?M = "f32MantField x"
  have "2 ^ 23 * 2 ^ k \<le> (2 ^ 23 + ?M) * (2 ^ ?E :: nat)"
    using assms by (intro mult_mono power_increasing) simp_all
  then have "(of_nat (2 ^ 23 * 2 ^ k) :: rat) \<le> of_nat ((2 ^ 23 + ?M) * 2 ^ ?E)"
    by (simp only: of_nat_le_iff)
  then have "(of_nat (2 ^ 23 * 2 ^ k) :: rat) / 2 ^ 150 \<le> of_nat ((2 ^ 23 + ?M) * 2 ^ ?E) / 2 ^ 150"
    by (rule divide_right_mono) simp
  moreover have "(of_nat (2 ^ 23 * 2 ^ k) :: rat) = 2 ^ 23 * 2 ^ k" by simp
  moreover have "f32Magnitude x = of_nat ((2 ^ 23 + ?M) * 2 ^ ?E) / 2 ^ 150"
    using assms by (simp add: f32Magnitude_def)
  ultimately show ?thesis by (simp only:)
qed

lemma magnitude_lt_pow:
  assumes "f32ExpField x \<le> k" "1 \<le> k"
  shows "f32Magnitude x < (2 ^ 24 * 2 ^ k :: rat) / 2 ^ 150"
proof (cases "f32ExpField x = 0")
  case True
  let ?M = "f32MantField x"
  have M: "?M < 8388608" by (rule mant_field_lt)
  have "(of_nat ?M :: rat) < 8388608" using M by simp
  then have "(of_nat ?M :: rat) / 2 ^ 149 < 8388608 / 2 ^ 149"
    by (rule divide_strict_right_mono) simp
  also have "\<dots> = (2 ^ 24 * 2 ^ 0 :: rat) / 2 ^ 150" by simp
  also have "\<dots> \<le> (2 ^ 24 * 2 ^ k :: rat) / 2 ^ 150"
    by (intro divide_right_mono mult_left_mono power_increasing) simp_all
  finally have "(of_nat ?M :: rat) / 2 ^ 149 < (2 ^ 24 * 2 ^ k :: rat) / 2 ^ 150" .
  moreover have "f32Magnitude x = of_nat ?M / 2 ^ 149"
    using True by (simp add: f32Magnitude_def)
  ultimately show ?thesis by (simp only:)
next
  case False
  let ?E = "f32ExpField x" and ?M = "f32MantField x"
  have M: "?M < 8388608" by (rule mant_field_lt)
  have "(2 ^ 23 + ?M) * 2 ^ ?E < 2 ^ 24 * (2 ^ ?E :: nat)"
    using M by simp
  also have "\<dots> \<le> 2 ^ 24 * (2 ^ k :: nat)"
    using assms by (intro mult_left_mono power_increasing) simp_all
  finally have "(of_nat ((2 ^ 23 + ?M) * 2 ^ ?E) :: rat) < of_nat (2 ^ 24 * 2 ^ k)"
    by (simp only: of_nat_less_iff)
  then have "(of_nat ((2 ^ 23 + ?M) * 2 ^ ?E) :: rat) / 2 ^ 150 < of_nat (2 ^ 24 * 2 ^ k) / 2 ^ 150"
    by (rule divide_strict_right_mono) simp
  moreover have "(of_nat (2 ^ 24 * 2 ^ k) :: rat) = 2 ^ 24 * 2 ^ k" by simp
  moreover have "f32Magnitude x = of_nat ((2 ^ 23 + ?M) * 2 ^ ?E) / 2 ^ 150"
    using False by (simp add: f32Magnitude_def)
  ultimately show ?thesis by (simp only:)
qed

lemma magnitude_at_142:
  assumes "f32ExpField x = 142"
  shows "f32Magnitude x = (8388608 + of_nat (f32MantField x)) / 256"
  using assms by (simp add: f32Magnitude_def)

lemma magnitude_lt_min_normal:
  assumes "f32Magnitude x < 1 / 2 ^ 14"
  shows "f32ExpField x \<le> 112"
proof (rule ccontr)
  assume "\<not> ?thesis"
  then have "113 \<le> f32ExpField x" by simp
  from magnitude_ge_pow [OF this] have "(2 ^ 23 * 2 ^ 113 :: rat) / 2 ^ 150 \<le> f32Magnitude x" by simp
  with assms show False by simp
qed

lemma magnitude_between:
  assumes "65504 < f32Magnitude x" "f32Magnitude x < 65520"
  shows "f32ExpField x = 142 \<and> 0x7FE000 < f32MantField x \<and> f32MantField x < 0x7FF000"
proof -
  have a: "142 \<le> f32ExpField x"
  proof (rule ccontr)
    assume "\<not> ?thesis"
    then have "f32ExpField x \<le> 141" by simp
    from magnitude_lt_pow [OF this] have "f32Magnitude x < (2 ^ 24 * 2 ^ 141 :: rat) / 2 ^ 150" by simp
    with assms(1) show False by simp
  qed
  have b: "f32ExpField x \<le> 142"
  proof (rule ccontr)
    assume "\<not> ?thesis"
    then have "143 \<le> f32ExpField x" by simp
    from magnitude_ge_pow [OF this] have "(2 ^ 23 * 2 ^ 143 :: rat) / 2 ^ 150 \<le> f32Magnitude x" by simp
    with assms(2) show False by simp
  qed
  from a b have e: "f32ExpField x = 142" by simp
  from assms have "(65504::rat) < (8388608 + of_nat (f32MantField x)) / 256"
     "(8388608 + of_nat (f32MantField x)) / 256 < (65520::rat)"
    by (simp_all only: magnitude_at_142 [OF e])
  then have "(8380416::rat) < of_nat (f32MantField x)" "of_nat (f32MantField x) < (8384512::rat)"
    by simp_all
  then have "8380416 < f32MantField x" "f32MantField x < 8384512"
    by simp_all
  with e show ?thesis by simp
qed

lemma f32ToF16Bits_body_fields:
  "f32ToF16Bits_body x =
    (let sign = f32SignField x;
         exp = int (f32ExpField x);
         mant = int (f32MantField x)
     in if exp = 0xFF
        then (if mant \<noteq> 0 then push_bit 15 sign OR 0x7E00 else push_bit 15 sign OR 0x7C00)
        else if exp = 0 then push_bit 15 sign
        else let exp = exp - 127 + 15
             in if 0x1F \<le> exp then push_bit 15 sign OR 0x7C00
                else if exp \<le> 0 then push_bit 15 sign
                else let mant = mant + 0x00001000
                     in if mant AND 0x00800000 \<noteq> 0
                        then (let mant = 0; exp = exp + 1
                              in if 0x1F \<le> exp then push_bit 15 sign OR 0x7C00
                                 else push_bit 15 sign OR push_bit 10 exp OR drop_bit 13 mant)
                        else push_bit 15 sign OR push_bit 10 exp OR drop_bit 13 mant)"
  by (simp only: f32ToF16Bits_body_def sign_field_int exp_field_int mant_field_int)

lemma f32ToF16Bits_overflow:
  assumes "f32Finite x" "65520 \<le> f32Magnitude x"
  shows "f32ToF16Bits_body x = push_bit 15 (f32SignField x) OR 0x7C00"
proof -
  from magnitude_ge_65520 [OF assms]
  consider "143 \<le> f32ExpField x" | "f32ExpField x = 142" "0x7FF000 \<le> f32MantField x" by blast
  then show ?thesis
  proof cases
    case 1
    then show ?thesis using assms(1) by (simp add: f32ToF16Bits_body_fields f32Finite_def Let_def)
  next
    case 2
    have "((int (f32MantField x) + 0x00001000) AND 0x00800000 \<noteq> 0)"
      using rounding_carry_iff [of "int (f32MantField x)"] mant_field_lt_int [of x] 2 by simp
    then show ?thesis using 2 by (simp add: f32ToF16Bits_body_fields Let_def)
  qed
qed

lemma f32ToF16Bits_flush:
  assumes "f32Magnitude x < 1 / 2 ^ 14"
  shows "f32ToF16Bits_body x = push_bit 15 (f32SignField x)"
  using magnitude_lt_min_normal [OF assms] by (simp add: f32ToF16Bits_body_fields Let_def)

lemma f32ToF16Bits_max_finite:
  assumes "65504 < f32Magnitude x" "f32Magnitude x < 65520"
  shows "f32ToF16Bits_body x = push_bit 15 (f32SignField x) OR 0x7BFF"
proof -
  from magnitude_between [OF assms] have e: "f32ExpField x = 142"
    and m: "0x7FE000 < f32MantField x" "f32MantField x < 0x7FF000" by simp_all
  have nc: "\<not> ((int (f32MantField x) + 0x00001000) AND 0x00800000 \<noteq> 0)"
    using rounding_carry_iff [of "int (f32MantField x)"] mant_field_lt_int [of x] m by simp
  have d: "drop_bit 13 (int (f32MantField x) + 0x00001000) = 1023"
    using m by (simp add: drop_bit_eq_div)
  show ?thesis
    using e nc d by (simp add: f32ToF16Bits_body_fields Let_def or.assoc)
qed


text \<open>
  Claim C3, as amended.  For a finite binary32 input the encoder returns the signed
  Infinity pattern whenever the magnitude is at least 65520, the point from which
  rounding to nearest carries out of the largest finite half-float 65504; a magnitude
  strictly between 65504 and 65520 gives the largest finite pattern
  \<open>sign<<15 | 0x7BFF\<close>; and a magnitude below the smallest binary16 normal \<open>2^-14\<close> gives
  the signed zero \<open>sign<<15\<close>.
\<close>

theorem f32ToF16Bits_saturation:
  "f32Finite x \<Longrightarrow>
     (65520 \<le> f32Magnitude x \<longrightarrow>
        f32ToF16Bits_body x = push_bit 15 (f32SignField x) OR 0x7C00) \<and>
     (65504 < f32Magnitude x \<and> f32Magnitude x < 65520 \<longrightarrow>
        f32ToF16Bits_body x = push_bit 15 (f32SignField x) OR 0x7BFF) \<and>
     (f32Magnitude x < 1 / 2 ^ 14 \<longrightarrow>
        f32ToF16Bits_body x = push_bit 15 (f32SignField x))"
  using f32ToF16Bits_overflow [of x] f32ToF16Bits_max_finite [of x] f32ToF16Bits_flush [of x]
  by blast

text \<open>
  The theorem at 65520.0 (\<open>0x477FF000\<close>), at -65505.0 (\<open>0xC77FE100\<close>) and at
  \<open>-2^-15\<close> (\<open>0xB8000000\<close>).
\<close>

theorem f32ToF16Bits_saturation_witness:
  "f32Finite 0x477FF000 \<and> f32Magnitude 0x477FF000 = 65520
     \<and> f32ToF16Bits_body 0x477FF000 = 0x7C00
   \<and> f32Finite 0xC77FE100 \<and> f32Magnitude 0xC77FE100 = 65505
     \<and> f32ToF16Bits_body 0xC77FE100 = 0xFBFF
   \<and> f32Finite 0xB8000000 \<and> f32Magnitude 0xB8000000 = 1 / 2 ^ 15
     \<and> f32ToF16Bits_body 0xB8000000 = 0x8000"
proof -
  have a: "f32Finite 0x477FF000" "f32Magnitude 0x477FF000 = 65520"
    "f32SignField 0x477FF000 = 0"
    by (simp_all add: f32Finite_def f32Magnitude_def f32ExpField_def f32MantField_def
        f32SignField_def)
  have b: "f32Finite 0xC77FE100" "f32Magnitude 0xC77FE100 = 65505"
    "f32SignField 0xC77FE100 = 1"
    by (simp_all add: f32Finite_def f32Magnitude_def f32ExpField_def f32MantField_def
        f32SignField_def)
  have c: "f32Finite 0xB8000000" "f32Magnitude 0xB8000000 = 1 / 2 ^ 15"
    "f32SignField 0xB8000000 = 1"
    by (simp_all add: f32Finite_def f32Magnitude_def f32ExpField_def f32MantField_def
        f32SignField_def)
  from f32ToF16Bits_saturation [OF a(1)] a(2,3)
  have "f32ToF16Bits_body 0x477FF000 = 0x7C00" by simp
  moreover from f32ToF16Bits_saturation [OF b(1)] b(2,3)
  have "f32ToF16Bits_body 0xC77FE100 = 0xFBFF" by simp
  moreover from f32ToF16Bits_saturation [OF c(1)] c(2,3)
  have "f32ToF16Bits_body 0xB8000000 = 0x8000" by simp
  ultimately show ?thesis using a b c by simp
qed

text \<open>
  The claim as stated fails at 65505.0 (\<open>0x477FE100\<close>): the input is finite and its
  magnitude exceeds 65504, yet the result is \<open>0x7BFF\<close> (65504), not the Infinity
  pattern \<open>0x7C00\<close>.
\<close>

theorem f32ToF16Bits_saturation_counterexample:
  "f32Finite 0x477FE100 \<and> 65504 < f32Magnitude 0x477FE100
   \<and> f32ToF16Bits_body 0x477FE100 = 0x7BFF
   \<and> f32ToF16Bits_body 0x477FE100 \<noteq> push_bit 15 (f32SignField 0x477FE100) OR 0x7C00"
  by (simp add: f32Finite_def f32Magnitude_def f32ExpField_def f32MantField_def
      f32SignField_def f32ToF16Bits_body_def)

section \<open>Properties of the data-mode packer\<close>

text \<open>The pack loop: how many packs it builds and what the pack of turn \<open>q\<close> is.\<close>

lemma ceil4_step:
  fixes d :: nat
  assumes "0 < d"
  shows "Suc ((d - 4 + 3) div 4) = (d + 3) div 4"
proof (cases "4 \<le> d")
  case True
  then have "d + 3 = (d - 4 + 3) + 4" by simp
  then have "(d + 3) div 4 = ((d - 4 + 3) + 4) div 4" by simp
  also have "\<dots> = Suc ((d - 4 + 3) div 4)" by simp
  finally show ?thesis by simp
next
  case False
  then have "d - 4 = 0" by simp
  moreover have "(d + 3) div 4 = 1"
    using assms False by (intro div_nat_eqI) simp_all
  ultimately show ?thesis by simp
qed

lemma packsFrom_length: "length (packsFrom r u cs p) = (length cs - p + 3) div 4"
proof (induction r u cs p rule: packsFrom.induct)
  case (1 raster rgba8 cs p)
  show ?case
  proof (cases "p < length cs")
    case True
    from 1 [OF True]
    have "length (packsFrom raster rgba8 cs (p + 4)) = (length cs - p - 4 + 3) div 4"
      by simp
    moreover have "Suc ((length cs - p - 4 + 3) div 4) = (length cs - p + 3) div 4"
      using True by (intro ceil4_step) simp
    moreover have "packsFrom raster rgba8 cs p =
        makePack raster rgba8 (packChannels cs p) # packsFrom raster rgba8 cs (p + 4)"
      using True by (subst packsFrom.simps) simp
    ultimately show ?thesis by simp
  next
    case False
    then have "packsFrom raster rgba8 cs p = []" by (subst packsFrom.simps) simp
    with False show ?thesis by simp
  qed
qed

lemma packsFrom_nth:
  "q < length (packsFrom r u cs p) \<Longrightarrow>
   packsFrom r u cs p ! q = makePack r u (packChannels cs (p + 4 * q))"
proof (induction r u cs p arbitrary: q rule: packsFrom.induct)
  case (1 raster rgba8 cs p)
  show ?case
  proof (cases "p < length cs")
    case True
    have eq: "packsFrom raster rgba8 cs p =
        makePack raster rgba8 (packChannels cs p) # packsFrom raster rgba8 cs (p + 4)"
      using True by (subst packsFrom.simps) simp
    show ?thesis
    proof (cases q)
      case 0
      then show ?thesis by (simp add: eq)
    next
      case (Suc q')
      with "1.prems" eq have "q' < length (packsFrom raster rgba8 cs (p + 4))" by simp
      from "1.IH" [OF True this] Suc show ?thesis by (simp add: eq algebra_simps)
    qed
  next
    case False
    then have "packsFrom raster rgba8 cs p = []" by (subst packsFrom.simps) simp
    with "1.prems" show ?thesis by simp
  qed
qed


lemma concat_map4_length:
  "length (concat (map (\<lambda>i. map (f i) [0..<4]) [0..<n])) = 4 * n"
  by (induction n) simp_all

lemma concat_map4_nth:
  "i < n \<Longrightarrow> k < 4 \<Longrightarrow> concat (map (\<lambda>i. map (f i) [0..<4]) [0..<n]) ! (4 * i + k) = f i k"
proof (induction n)
  case 0
  then show ?case by simp
next
  case (Suc n)
  show ?case
  proof (cases "i < n")
    case True
    then have "4 * i + k < 4 * n" using Suc.prems by simp
    then show ?thesis using Suc True by (simp add: nth_append concat_map4_length)
  next
    case False
    then have "i = n" using Suc.prems by simp
    then show ?thesis using Suc.prems by (simp add: nth_append concat_map4_length)
  qed
qed

lemma packChannels_nth:
  "k < 4 \<Longrightarrow> packChannels cs p ! k = (case elemAt cs (p + k) of Some (Some c) \<Rightarrow> c | _ \<Rightarrow> - 1)"
  by (simp add: packChannels_def)

lemma packChannels_length: "length (packChannels cs p) = 4"
  by (simp add: packChannels_def)

lemma ceiling_quarter: "\<lceil>(of_nat n :: rat) / 4\<rceil> = int ((n + 3) div 4)"
proof -
  have "\<lceil>(of_int (int n) :: rat) / of_int 4\<rceil> = - (- int n div 4)"
    by (metis ceiling_def floor_divide_of_int_eq minus_divide_left of_int_minus)
  moreover have "- (- int n div 4) = (int n + 3) div 4" by presburger
  moreover have "(int n + 3) div 4 = int ((n + 3) div 4)" by (simp add: zdiv_int)
  ultimately show ?thesis by simp
qed

lemma pad_byte: "\<not> validBand r bi \<Longrightarrow> byteSample r bi i = 0"
  by (simp add: byteSample_def bandSample_def)

lemma f32ToF16Bits_zero: "f32ToF16Bits (Fin 0) = 0"
  by (simp add: f32ToF16Bits_def f32ToF16Bits_body_def)

lemma pad_half: "\<not> validBand r bi \<Longrightarrow> halfSample r (slotScale r bi) bi i = 0"
  by (simp add: halfSample_def slotScale_def normalizedSample_def bandSample_def clampHalf_def
      dgreater_def f32ToF16Bits_zero)

lemma makePack_data_nth:
  "i < width r * height r \<Longrightarrow> k < 4 \<Longrightarrow>
   pk_data (makePack r u ch) ! (4 * i + k) =
     (if u then byteSample r (ch ! k) i else halfSample r (slotScale r (ch ! k)) (ch ! k) i)"
  by (simp add: makePack_def packDataRGBA8_def packDataRGBA16F_def concat_map4_nth)

lemma natural_channels:
  "channels f = None \<or> channels f = Some [] \<Longrightarrow>
   activeChannels r f = map (\<lambda>i. Some (int i)) [0..<length (bands r)]"
  by (auto simp: activeChannels_def Let_def)

lemma natural_packChannels:
  "k < 4 \<Longrightarrow>
   packChannels (map (\<lambda>i. Some (int i)) [0..<n]) p ! k =
     (if p + k < n then int (p + k) else - 1)"
  by (simp add: packChannels_nth elemAt_def)

lemma natural_count: "countChannels (map (\<lambda>i. Some (int i)) [0..<n]) = n"
  by (simp add: countChannels_def filter_map comp_def)

lemma last_pack_used:
  fixes n :: nat
  assumes "0 < n"
  shows "n - 4 * ((n + 3) div 4 - 1) = (if n mod 4 = 0 then 4 else n mod 4)"
proof -
  obtain m r0 where n: "n = 4 * m + r0" and r0: "r0 < 4"
    by (metis mod_less_divisor mult_div_mod_eq zero_less_numeral)
  show ?thesis
  proof (cases "r0 = 0")
    case True
    with n assms have "0 < m" by simp
    moreover have "(4 * m + 3) div 4 = m" by simp
    ultimately show ?thesis using True n by (simp add: algebra_simps)
  next
    case False
    with r0 have "(r0 + 3) div 4 = 1" by (intro div_nat_eqI) simp_all
    then have "(4 * m + r0 + 3) div 4 = m + 1"
      by (simp add: add.assoc)
    then show ?thesis using False n r0 by simp
  qed
qed

lemma before_last_full:
  fixes n q k :: nat
  assumes "q + 1 < (n + 3) div 4"
  shows "4 * q + 3 < n"
proof -
  have "4 * ((n + 3) div 4) \<le> n + 3" by simp
  with assms show ?thesis by linarith
qed

subsection \<open>Storage format of a pack\<close>





subsection \<open>Shape of the packs in natural band order\<close>

text \<open>
  Claim C4.  With the natural band order and \<open>n\<close> bands the texture set has
  \<open>ceil(n/4)\<close> packs and \<open>n\<close> logical channels; every slot of every pack but the last
  is the band index \<open>4q + k\<close>; in the last pack the slots below \<open>n mod 4\<close> (below 4
  if \<open>n mod 4 = 0\<close>) are band indices, and the slots from there on hold \<open>-1\<close> and
  zero data at every pixel.
\<close>

theorem natural_order_pack_shape:
  assumes nat_order: "channels f = None \<or> channels f = Some []"
  shows
    "int (length (ts_packs (packBandsAsData r f))) = \<lceil>(of_nat (length (bands r)) :: rat) / 4\<rceil>
     \<and> ts_channelCount (packBandsAsData r f) = length (bands r)
     \<and> (\<forall>q k. q + 1 < length (ts_packs (packBandsAsData r f)) \<and> k < 4 \<longrightarrow>
            pk_channels (ts_packs (packBandsAsData r f) ! q) ! k = int (4 * q + k))
     \<and> (ts_packs (packBandsAsData r f) \<noteq> [] \<longrightarrow>
          (\<forall>k < 4.
             (k < (if length (bands r) mod 4 = 0 then 4 else length (bands r) mod 4) \<longrightarrow>
                0 \<le> pk_channels (last (ts_packs (packBandsAsData r f))) ! k)
           \<and> ((if length (bands r) mod 4 = 0 then 4 else length (bands r) mod 4) \<le> k \<longrightarrow>
                pk_channels (last (ts_packs (packBandsAsData r f))) ! k = - 1
                \<and> (\<forall>i < width r * height r.
                      pk_data (last (ts_packs (packBandsAsData r f))) ! (4 * i + k) = 0))))"
proof -
  let ?n = "length (bands r)"
  let ?cs = "map (\<lambda>i. Some (int i)) [0..<?n]"
  let ?u = "useRGBA8 r f"
  let ?packs = "ts_packs (packBandsAsData r f)"
  let ?used = "if ?n mod 4 = 0 then 4 else ?n mod 4"
  have packs: "?packs = packsFrom r ?u ?cs 0"
    by (simp add: packBandsAsData_def Let_def natural_channels [OF nat_order])
  have len: "length ?packs = (?n + 3) div 4"
    by (simp add: packs packsFrom_length)
  have nth: "?packs ! q = makePack r ?u (packChannels ?cs (4 * q))" if "q < length ?packs" for q
    using that packsFrom_nth [of q r ?u ?cs 0] by (simp add: packs)
  have ch: "pk_channels (?packs ! q) ! k = (if 4 * q + k < ?n then int (4 * q + k) else - 1)"
    if "q < length ?packs" "k < 4" for q k
    using that by (simp add: nth makePack_def natural_packChannels)
  have c1: "int (length ?packs) = \<lceil>(of_nat ?n :: rat) / 4\<rceil>"
    by (simp only: len ceiling_quarter)
  have c2: "ts_channelCount (packBandsAsData r f) = ?n"
    by (simp add: packBandsAsData_def Let_def natural_channels [OF nat_order] natural_count)
  have c3: "pk_channels (?packs ! q) ! k = int (4 * q + k)"
    if "q + 1 < length ?packs" "k < 4" for q k
  proof -
    from that(1) have "4 * q + 3 < ?n" by (simp only: len before_last_full)
    with that have "4 * q + k < ?n" by simp
    moreover from that have "q < length ?packs" by simp
    ultimately show ?thesis using that(2) by (simp add: ch)
  qed
  have c4: "(k < ?used \<longrightarrow> 0 \<le> pk_channels (last ?packs) ! k)
      \<and> (?used \<le> k \<longrightarrow> pk_channels (last ?packs) ! k = - 1
            \<and> (\<forall>i < width r * height r. pk_data (last ?packs) ! (4 * i + k) = 0))"
    if ne: "?packs \<noteq> []" and k: "k < 4" for k
  proof -
    let ?q = "length ?packs - 1"
    from ne have q: "?q < length ?packs" by simp
    from ne have lst: "last ?packs = ?packs ! ?q" by (simp add: last_conv_nth)
    from ne len have npos: "0 < ?n" by (cases "?n = 0") simp_all
    have used: "?n - 4 * ?q = ?used"
      using last_pack_used [OF npos] by (simp only: len)
    have le: "4 * ?q \<le> ?n"
    proof -
      have "0 < ?used" by simp
      with used show ?thesis by linarith
    qed
    have iff: "(4 * ?q + k < ?n) = (k < ?used)"
      using used le by linarith
    have chk: "pk_channels (last ?packs) ! k = (if k < ?used then int (4 * ?q + k) else - 1)"
      using ch [OF q k] iff by (simp only: lst) 
    have "pk_data (last ?packs) ! (4 * i + k) = 0"
      if "?used \<le> k" "i < width r * height r" for i
    proof -
      have "packChannels ?cs (4 * ?q) ! k = (if 4 * ?q + k < ?n then int (4 * ?q + k) else - 1)"
        by (rule natural_packChannels [OF k])
      moreover from that(1) iff have "\<not> 4 * ?q + k < ?n" by linarith
      ultimately have m1: "packChannels ?cs (4 * ?q) ! k = - 1" by simp
      have nv: "\<not> validBand r (- 1)" by (simp add: validBand_def)
      have "pk_data (last ?packs) ! (4 * i + k) =
          pk_data (makePack r ?u (packChannels ?cs (4 * ?q))) ! (4 * i + k)"
        by (simp only: lst nth [OF q])
      also have "\<dots> = (if ?u then byteSample r (- 1) i
                         else halfSample r (slotScale r (- 1)) (- 1) i)"
        by (simp only: makePack_data_nth [OF that(2) k] m1)
      also have "\<dots> = 0"
        by (simp only: pad_byte [OF nv] pad_half [OF nv] if_cancel)
      finally show ?thesis .
    qed
    with chk show ?thesis by auto
  qed
  from c1 c2 c3 c4 show ?thesis by blast
qed

text \<open>The theorem at the six-band raster: two packs, the second \<open>[4, 5, -1, -1]\<close>.\<close>

theorem natural_order_pack_shape_witness:
  "channels emptyFormat = None
   \<and> length (ts_packs (packBandsAsData sixByteRaster emptyFormat)) = 2
   \<and> ts_channelCount (packBandsAsData sixByteRaster emptyFormat) = 6
   \<and> pk_channels (ts_packs (packBandsAsData sixByteRaster emptyFormat) ! 0) ! 3 = 3
   \<and> 0 \<le> pk_channels (last (ts_packs (packBandsAsData sixByteRaster emptyFormat))) ! 1
   \<and> pk_channels (last (ts_packs (packBandsAsData sixByteRaster emptyFormat))) ! 2 = - 1
   \<and> pk_data (last (ts_packs (packBandsAsData sixByteRaster emptyFormat))) ! 2 = 0"
proof -
  let ?S = "ts_packs (packBandsAsData sixByteRaster emptyFormat)"
  have c: "channels emptyFormat = None" by (simp add: emptyFormat_def)
  then have h: "channels emptyFormat = None \<or> channels emptyFormat = Some []" by simp
  note t = natural_order_pack_shape [OF h, of sixByteRaster]
  from t have l: "length ?S = 2" by simp
  then have ne: "?S \<noteq> []" by auto
  from t have cc: "ts_channelCount (packBandsAsData sixByteRaster emptyFormat) = 6" by simp
  from t have "\<forall>q k. q + 1 < length ?S \<and> k < 4 \<longrightarrow> pk_channels (?S ! q) ! k = int (4 * q + k)"
    by blast
  then have "0 + 1 < length ?S \<and> (3::nat) < 4 \<longrightarrow> pk_channels (?S ! 0) ! 3 = int (4 * 0 + 3)"
    by blast
  with l have a: "pk_channels (?S ! 0) ! 3 = 3" by simp
  from t ne have lastp: "\<forall>k < 4.
       (k < (if length (bands sixByteRaster) mod 4 = 0 then 4 else length (bands sixByteRaster) mod 4) \<longrightarrow>
                0 \<le> pk_channels (last ?S) ! k)
           \<and> ((if length (bands sixByteRaster) mod 4 = 0 then 4 else length (bands sixByteRaster) mod 4) \<le> k \<longrightarrow>
                pk_channels (last ?S) ! k = - 1
                \<and> (\<forall>i < width sixByteRaster * height sixByteRaster.
                      pk_data (last ?S) ! (4 * i + k) = 0))"
    by blast
  from lastp [rule_format, of 1] have b: "0 \<le> pk_channels (last ?S) ! 1" by simp
  from lastp [rule_format, of 2] have d: "pk_channels (last ?S) ! 2 = - 1"
    and e: "\<forall>i < 1. pk_data (last ?S) ! (4 * i + 2) = 0" by simp_all
  from e have e': "pk_data (last ?S) ! 2 = 0" by (simp add: numeral_2_eq_2)
  from c l cc a b d e' show ?thesis by blast
qed

subsection \<open>Scale of a 12-bit band\<close>

lemma sampleMax_12: "sampleMax (Some 12) = Fin 4095"
  by (simp add: sampleMax_def arith_defs round_defs)

lemma slotScale_12:
  assumes "validBand r bi" "\<not> isFloat (bands r ! nat bi)" "bitsFor r (nat bi) = Some 12"
  shows "slotScale r bi = Fin 1"
  using assms by (simp add: slotScale_def sampleMax_12 dgreater_def)

lemma halfSample_unscaled:
  assumes "validBand r bi"
  shows "halfSample r (Fin 1) bi i =
    f32ToF16Bits (fst (clampHalf (numberOf (elemAt (samples (bands r ! nat bi)) i))))"
  using assms by (simp add: halfSample_def normalizedSample_def bandSample_def)

text \<open>
  The half-float pattern of a small non-negative integer.  A binary32 pattern with
  sign 0 and exponent field at most 138 is below 4096, and its half-float pattern,
  rounded to nearest, denotes a value of at most 4096; an integer below \<open>2^24\<close> is
  stored into a \<^verbatim>\<open>Float32Array\<close> exactly.
\<close>

lemma or_push_bit_add:
  fixes d :: int
  assumes "0 \<le> d" "d < 2 ^ n"
  shows "push_bit n a OR d = a * 2 ^ n + d"
proof -
  have "push_bit n a OR d = take_bit n d OR push_bit n a"
    using assms by (simp add: take_bit_int_eq_self or.commute)
  also have "\<dots> = concat_bit n d a" by (simp add: concat_bit_def)
  also have "\<dots> = take_bit n d + push_bit n a" by (rule concat_bit_eq)
  finally show ?thesis using assms by (simp add: take_bit_int_eq_self push_bit_eq_mult)
qed

lemma f16Value_fields:
  fixes d E :: int
  assumes "0 \<le> d" "d < 1024" "0 < E" "E < 32"
  shows "f16Value (E * 1024 + d) = of_int (1024 + d) * 2 ^ nat E / 2 ^ 25"
proof -
  have a: "(E * 1024 + d) div 1024 = E" using assms by simp
  have b: "(E * 1024 + d) mod 1024 = d" using assms by simp
  have c: "(E * 1024 + d) div 32768 = 0" using assms by simp
  have d: "E mod 32 = E" using assms by simp
  show ?thesis using assms by (simp add: f16Value_def a b c d Let_def)
qed

lemma f16Value_zero: "f16Value 0 = 0"
  by (simp add: f16Value_def)

lemma half_of_small:
  assumes s: "f32SignField x = 0" and e: "f32ExpField x \<le> 138"
  shows "0 \<le> f16Value (f32ToF16Bits_body x) \<and> f16Value (f32ToF16Bits_body x) \<le> 4096"
proof -
  let ?E = "int (f32ExpField x)" and ?M = "int (f32MantField x)"
  have M: "0 \<le> ?M" "?M < 8388608" using mant_field_lt_int [of x] by simp_all
  consider "f32ExpField x \<le> 112" | "113 \<le> f32ExpField x" "0x7FF000 \<le> ?M"
    | "113 \<le> f32ExpField x" "\<not> 0x7FF000 \<le> ?M" by linarith
  then show ?thesis
  proof cases
    case 1
    then have "f32ToF16Bits_body x = 0"
      using s by (simp add: f32ToF16Bits_body_fields Let_def)
    then show ?thesis by (simp add: f16Value_zero)
  next
    case 2
    let ?h = "?E - 127 + 15 + 1"
    have c: "(?M + 0x00001000) AND 0x00800000 \<noteq> 0"
      using rounding_carry_iff [OF M] 2 by simp
    have "f32ToF16Bits_body x = push_bit 10 ?h OR 0"
      using s e 2 c by (simp add: f32ToF16Bits_body_fields Let_def)
    also have "\<dots> = ?h * 1024 + 0" by (subst or_push_bit_add) simp_all
    finally have r: "f32ToF16Bits_body x = ?h * 1024 + 0" .
    have h: "0 < ?h" "?h < 32" "?h \<le> 27" using e 2 by simp_all
    have v: "f16Value (f32ToF16Bits_body x) = of_int (1024 + 0) * 2 ^ nat ?h / 2 ^ 25"
      unfolding r by (rule f16Value_fields) (use h in simp_all)
    have "(2::rat) ^ nat ?h \<le> 2 ^ 27" using h by (intro power_increasing) simp_all
    then show ?thesis unfolding v by simp
  next
    case 3
    let ?h = "?E - 127 + 15"
    let ?d = "drop_bit 13 (?M + 0x00001000)"
    have c: "\<not> (?M + 0x00001000) AND 0x00800000 \<noteq> 0"
      using rounding_carry_iff [OF M] 3 by simp
    have d: "0 \<le> ?d" "?d < 1024" using M 3 by (simp_all add: drop_bit_eq_div)
    have "f32ToF16Bits_body x = push_bit 10 ?h OR ?d"
      using s e 3 c by (simp add: f32ToF16Bits_body_fields Let_def)
    also have "\<dots> = ?h * 1024 + ?d" by (subst or_push_bit_add) (use d in simp_all)
    finally have r: "f32ToF16Bits_body x = ?h * 1024 + ?d" .
    have h: "0 < ?h" "?h < 32" "?h \<le> 26" using e 3 by simp_all
    have v: "f16Value (f32ToF16Bits_body x) = of_int (1024 + ?d) * 2 ^ nat ?h / 2 ^ 25"
      unfolding r by (rule f16Value_fields) (use h d in simp_all)
    have p: "(2::rat) ^ nat ?h \<le> 2 ^ 26" using h by (intro power_increasing) simp_all
    have q: "(of_int (1024 + ?d) :: rat) \<le> 2048" using d by simp
    have "(of_int (1024 + ?d) :: rat) * 2 ^ nat ?h \<le> 2048 * 2 ^ 26"
      using p q d by (intro mult_mono) simp_all
    moreover have "(0::rat) \<le> of_int (1024 + ?d) * 2 ^ nat ?h" using d by simp
    ultimately show ?thesis unfolding v by simp
  qed
qed

lemma bitlen_bounds:
  "0 < n \<Longrightarrow> 0 < bitlen n \<and> 2 ^ nat (bitlen n - 1) \<le> n \<and> n < 2 ^ nat (bitlen n)"
proof (induction n rule: bitlen.induct)
  case (1 n)
  show ?case
  proof (cases "n = 1")
    case True
    then show ?thesis by simp
  next
    case False
    with "1.prems" have h: "0 < n div 2" by simp
    have step: "bitlen n = 1 + bitlen (n div 2)"
      using "1.prems" by (subst bitlen.simps) simp
    from "1.IH" h "1.prems" have ih: "0 < bitlen (n div 2)"
      "2 ^ nat (bitlen (n div 2) - 1) \<le> n div 2" "n div 2 < 2 ^ nat (bitlen (n div 2))"
      by simp_all
    let ?b = "bitlen (n div 2)"
    have p: "(2::int) ^ nat ?b = 2 * 2 ^ nat (?b - 1)"
      using ih(1) by (metis Suc_nat_eq_nat_zadd1 add.commute diff_add_cancel diff_ge_0_iff_ge
          int_one_le_iff_zero_less power_Suc)
    have q: "(2::int) ^ nat (1 + ?b) = 2 * 2 ^ nat ?b"
      using ih(1) by (simp add: nat_add_distrib)
    have lo: "2 ^ nat (bitlen n - 1) \<le> n"
      using ih(2) p by (simp add: step)
    have hi: "n < 2 ^ nat (bitlen n)"
      using ih(3) q by (simp add: step)
    from ih(1) lo hi show ?thesis by (simp add: step)
  qed
qed

lemma roundHalfEven_of_int: "roundHalfEven (of_int m) = m"
  by (simp add: roundHalfEven_def Let_def)

lemma pow2_nonpos: "e \<le> 0 \<Longrightarrow> pow2 e = 1 / 2 ^ nat (- e)"
  by (auto simp: pow2_def)

lemma ilog2_of_int: "0 < n \<Longrightarrow> ilog2 (of_int n) = bitlen n - 1"
  by (simp add: ilog2_def)

lemma roundToFormat_of_int:
  fixes n :: int
  assumes "0 < n" "n < 2 ^ 24"
  shows "roundToFormat 24 (- 126) (of_int n) = of_int n"
proof -
  let ?e = "bitlen n - 1"
  from bitlen_bounds [OF assms(1)] have b: "0 < bitlen n" "2 ^ nat ?e \<le> n" by simp_all
  have "(2::int) ^ nat ?e < 2 ^ 24" using b(2) assms(2) by linarith
  then have "nat ?e < 24" by (rule power_less_imp_less_exp [rotated]) simp
  then have e: "0 \<le> ?e" "?e \<le> 23" using b(1) by linarith+
  let ?k = "nat (23 - ?e)"
  have m: "max (ilog2 (of_int n)) (- 126) = ?e"
    using e by (simp add: ilog2_of_int [OF assms(1)])
  have u: "pow2 (?e - int 24 + 1) = 1 / 2 ^ ?k"
    using e pow2_nonpos [of "?e - 23"] by simp
  have "roundToFormat 24 (- 126) (of_int n)
      = of_int (roundHalfEven (of_int n / (1 / 2 ^ ?k))) * (1 / 2 ^ ?k)"
    by (simp only: roundToFormat_def Let_def m u)
  also have "of_int n / (1 / 2 ^ ?k) = (of_int (n * 2 ^ ?k) :: rat)" by simp
  also have "of_int (roundHalfEven (of_int (n * 2 ^ ?k))) * (1 / 2 ^ ?k) = (of_int n :: rat)"
    by (simp only: roundHalfEven_of_int) simp
  finally show ?thesis .
qed

lemma float32Bits_of_int:
  fixes n :: int
  assumes "0 < n" "n < 2 ^ 24"
  shows "float32Bits (of_int n) =
     word_of_int ((bitlen n - 1 + 127) * 2 ^ 23 + (n * 2 ^ nat (24 - bitlen n) - 2 ^ 23))"
proof -
  let ?e = "bitlen n - 1"
  from bitlen_bounds [OF assms(1)] have b: "0 < bitlen n" "2 ^ nat ?e \<le> n" by simp_all
  have "(2::int) ^ nat ?e < 2 ^ 24" using b(2) assms(2) by linarith
  then have "nat ?e < 24" by (rule power_less_imp_less_exp [rotated]) simp
  then have e: "0 \<le> ?e" "?e \<le> 23" using b(1) by linarith+
  let ?k = "nat (24 - bitlen n)"
  have r: "roundToFormat 24 (- 126) (of_int n) = of_int n"
    by (rule roundToFormat_of_int [OF assms])
  have big: "\<not> pow2 128 \<le> (of_int n :: rat)"
  proof -
    have "(of_int n :: rat) < of_int (2 ^ 24)" using assms(2) by (simp only: of_int_less_iff)
    also have "\<dots> \<le> 2 ^ 128" by simp
    finally show ?thesis by (simp add: pow2_def)
  qed
  have small: "\<not> (of_int n :: rat) < pow2 (- 126)"
  proof -
    have "pow2 (- 126) \<le> (1::rat)" by (simp add: pow2_def)
    also have "\<dots> \<le> of_int n" using assms(1) by simp
    finally show ?thesis by simp
  qed
  have u: "pow2 (?e - 23) = 1 / 2 ^ ?k"
    using e pow2_nonpos [of "?e - 23"] by (simp add: algebra_simps)
  have f: "\<lfloor>(of_int n :: rat) / pow2 (?e - 23)\<rfloor> = n * 2 ^ ?k"
  proof -
    have "(of_int n :: rat) / pow2 (?e - 23) = of_int (n * 2 ^ ?k)" by (simp only: u) simp
    then show ?thesis by (simp only: floor_of_int)
  qed
  show ?thesis
    by (simp only: float32Bits_def Let_def r big small if_False ilog2_of_int [OF assms(1)] f)
qed

lemma float32Bits_small_bounds:
  fixes n :: int
  assumes "0 < n" "n < 2 ^ 12"
  shows "\<exists>W. float32Bits (of_int n) = word_of_int W \<and> 0 \<le> W \<and> W < 139 * 2 ^ 23"
proof -
  let ?e = "bitlen n - 1"
  from bitlen_bounds [OF assms(1)]
  have b: "0 < bitlen n" "2 ^ nat ?e \<le> n" "n < 2 ^ nat (bitlen n)" by simp_all
  have "(2::int) ^ nat ?e < 2 ^ 12" using b(2) assms(2) by linarith
  then have "nat ?e < 12" by (rule power_less_imp_less_exp [rotated]) simp
  then have e: "0 \<le> ?e" "?e \<le> 11" using b(1) by linarith+
  let ?k = "nat (24 - bitlen n)"
  have n24: "n < 2 ^ 24" using assms(2) by simp
  have s: "nat (bitlen n) + ?k = 24" using e by simp
  have "n * 2 ^ ?k < 2 ^ nat (bitlen n) * 2 ^ ?k" using b(3) by simp
  also have "\<dots> = 2 ^ 24" by (simp only: power_add [symmetric] s)
  finally have hi: "n * 2 ^ ?k < 2 ^ 24" .
  have lo: "0 \<le> n * 2 ^ ?k" using assms(1) by simp
  let ?W = "(?e + 127) * 2 ^ 23 + (n * 2 ^ ?k - 2 ^ 23)"
  have "float32Bits (of_int n) = word_of_int ?W" by (rule float32Bits_of_int [OF assms(1) n24])
  moreover have "0 \<le> ?W" using e lo by simp
  moreover have "?W < 139 * 2 ^ 23" using e hi by simp
  ultimately show ?thesis by blast
qed

lemma small_word_fields:
  fixes W :: int
  assumes "0 \<le> W" "W < 139 * 2 ^ 23"
  shows "f32SignField (word_of_int W) = 0 \<and> f32ExpField (word_of_int W) \<le> 138"
proof -
  have u: "sint (word_of_int W :: 32 word) = W"
    using assms by (simp add: sint_sbintrunc' signed_take_bit_int_eq_self)
  have "f32SignField (word_of_int W) = drop_bit 31 W AND 0x1"
    by (simp only: sign_field_int [symmetric] u)
  also have "drop_bit 31 W = 0" using assms by (simp add: drop_bit_eq_div)
  finally have s: "f32SignField (word_of_int W) = 0" by simp
  have "int (f32ExpField (word_of_int W)) = drop_bit 23 W AND 0xFF"
    by (simp only: exp_field_int [symmetric] u)
  also have "\<dots> = take_bit 8 (W div 2 ^ 23)"
    by (simp only: mask_numerals take_bit_eq_mask drop_bit_eq_div)
  also have "\<dots> \<le> W div 2 ^ 23"
    using assms by (intro take_bit_int_less_eq_self_iff [THEN iffD2]) simp
  also have "\<dots> \<le> 138" using assms by simp
  finally have "f32ExpField (word_of_int W) \<le> 138" by simp
  with s show ?thesis by simp
qed

lemma half_of_small_nat:
  assumes "n \<le> 4095"
  shows "0 \<le> f16Value (f32ToF16Bits (Fin (of_nat n)))
       \<and> f16Value (f32ToF16Bits (Fin (of_nat n))) \<le> 4096"
proof (cases "n = 0")
  case True
  then show ?thesis by (simp add: f32ToF16Bits_zero f16Value_zero)
next
  case False
  then have p: "0 < int n" "int n < 2 ^ 12" using assms by simp_all
  from float32Bits_small_bounds [OF p] obtain W
    where W: "float32Bits (of_int (int n)) = word_of_int W" "0 \<le> W" "W < 139 * 2 ^ 23" by blast
  have "toFloat32 (Fin (of_nat n)) = float32Bits (of_int (int n))" using False by simp
  then have "f32ToF16Bits (Fin (of_nat n)) = f32ToF16Bits_body (word_of_int W)"
    by (simp only: f32ToF16Bits_def W(1))
  moreover from small_word_fields [OF W(2,3)]
  have "0 \<le> f16Value (f32ToF16Bits_body (word_of_int W))
       \<and> f16Value (f32ToF16Bits_body (word_of_int W)) \<le> 4096"
    by (intro half_of_small) simp_all
  ultimately show ?thesis by simp
qed

text \<open>
  Claim C2, as amended.  For an integer band of 12 bits per sample (declared maximum
  4095) packed in data mode with half-float forced, the pack is RGBA16F, the scale
  entry of the band's slot is 1 and its offset 0, and every stored sample is the
  half-float pattern of the raw sample value itself, limited to \<open>[-65504, 65504]\<close>,
  not of the value divided by 4095.  Where the raw sample is an integer
  between 0 and 4095, the stored half-float denotes a value between 0 and 4096.
\<close>

theorem twelve_bit_band_unscaled:
  assumes q: "q < length (ts_packs (packBandsAsData r f))" and k: "k < 4"
    and force: "forceRGBA16F_of f"
    and slot: "pk_channels (ts_packs (packBandsAsData r f) ! q) ! k = bi"
    and valid: "validBand r bi"
    and integral: "\<not> isFloat (bands r ! nat bi)"
    and bits: "bitsFor r (nat bi) = Some 12"
  shows "sampleMax (bitsFor r (nat bi)) = Fin 4095
    \<and> pk_format (ts_packs (packBandsAsData r f) ! q) = RGBA16F
    \<and> pk_scale (ts_packs (packBandsAsData r f) ! q) ! k = Fin 1
    \<and> pk_offset (ts_packs (packBandsAsData r f) ! q) ! k = Fin 0
    \<and> (\<forall>i < width r * height r.
          pk_data (ts_packs (packBandsAsData r f) ! q) ! (4 * i + k) =
            f32ToF16Bits (fst (clampHalf (numberOf (elemAt (samples (bands r ! nat bi)) i)))))
    \<and> (\<forall>i < width r * height r. \<forall>v.
          elemAt (samples (bands r ! nat bi)) i = Some (Fin v) \<longrightarrow>
            pk_data (ts_packs (packBandsAsData r f) ! q) ! (4 * i + k) =
              f32ToF16Bits (Fin (max (- 65504) (min v 65504))))
    \<and> (\<forall>i < width r * height r. \<forall>n \<le> 4095.
          elemAt (samples (bands r ! nat bi)) i = Some (Fin (of_nat n)) \<longrightarrow>
            pk_data (ts_packs (packBandsAsData r f) ! q) ! (4 * i + k) = f32ToF16Bits (Fin (of_nat n))
          \<and> 0 \<le> f16Value (pk_data (ts_packs (packBandsAsData r f) ! q) ! (4 * i + k))
          \<and> f16Value (pk_data (ts_packs (packBandsAsData r f) ! q) ! (4 * i + k)) \<le> 4096)"
proof -
  let ?cs = "activeChannels r f"
  let ?packs = "ts_packs (packBandsAsData r f)"
  let ?ch = "packChannels ?cs (4 * q)"
  have u: "useRGBA8 r f = False" using force by (simp add: useRGBA8_def)
  have packs: "?packs = packsFrom r False ?cs 0"
    by (simp add: packBandsAsData_def Let_def u)
  have nth: "?packs ! q = makePack r False ?ch"
    using q packsFrom_nth [of q r False ?cs 0] by (simp add: packs)
  have chk: "?ch ! k = bi" using slot by (simp add: nth makePack_def)
  have sc: "slotScale r bi = Fin 1" by (rule slotScale_12 [OF valid integral bits])
  have c1: "sampleMax (bitsFor r (nat bi)) = Fin 4095" by (simp only: bits sampleMax_12)
  have c2: "pk_format (?packs ! q) = RGBA16F" by (simp add: nth makePack_def)
  have c3: "pk_scale (?packs ! q) ! k = Fin 1"
    using k by (simp add: nth makePack_def packChannels_length chk sc)
  have c4: "pk_offset (?packs ! q) ! k = Fin 0"
  proof -
    from k consider "k = 0" | "k = 1" | "k = 2" | "k = 3" by linarith
    then show ?thesis by cases (simp_all add: nth makePack_def)
  qed
  have c5: "pk_data (?packs ! q) ! (4 * i + k) =
      f32ToF16Bits (fst (clampHalf (numberOf (elemAt (samples (bands r ! nat bi)) i))))"
    if "i < width r * height r" for i
  proof -
    have "pk_data (?packs ! q) ! (4 * i + k) = halfSample r (slotScale r (?ch ! k)) (?ch ! k) i"
      using makePack_data_nth [OF that k, of False ?ch] by (simp only: nth if_False)
    also have "\<dots> = halfSample r (Fin 1) bi i" by (simp only: chk sc)
    finally show ?thesis by (simp only: halfSample_unscaled [OF valid])
  qed
  have c5': "pk_data (?packs ! q) ! (4 * i + k) = f32ToF16Bits (Fin (max (- 65504) (min v 65504)))"
    if i: "i < width r * height r"
      and raw: "elemAt (samples (bands r ! nat bi)) i = Some (Fin v)" for i v
  proof -
    have "fst (clampHalf (Fin v)) = Fin (max (- 65504) (min v 65504))"
      by (auto simp: clampHalf_def dgreater_def max_def min_def)
    then show ?thesis by (simp add: c5 [OF i] raw numberOf_def)
  qed
  have c6: "pk_data (?packs ! q) ! (4 * i + k) = f32ToF16Bits (Fin (of_nat n))
      \<and> 0 \<le> f16Value (pk_data (?packs ! q) ! (4 * i + k))
      \<and> f16Value (pk_data (?packs ! q) ! (4 * i + k)) \<le> 4096"
    if i: "i < width r * height r" and n: "n \<le> 4095"
      and raw: "elemAt (samples (bands r ! nat bi)) i = Some (Fin (of_nat n))" for i n
  proof -
    have "(of_nat n :: rat) \<le> of_nat 4095" using n by (simp only: of_nat_le_iff)
    then have "clampHalf (Fin (of_nat n)) = (Fin (of_nat n), False)"
      by (simp add: clampHalf_def dgreater_def)
    then have "pk_data (?packs ! q) ! (4 * i + k) = f32ToF16Bits (Fin (of_nat n))"
      by (simp add: c5 [OF i] raw numberOf_def)
    with half_of_small_nat [OF n] show ?thesis by simp
  qed
  from c1 c2 c3 c4 c5 c5' c6 show ?thesis by blast
qed

lemma twelve_packs:
  "ts_packs (packBandsAsData twelveBitRaster forceHalfFormat) =
     [\<lparr> pk_format = RGBA16F, pk_data = [0x6C00, 0, 0, 0], pk_channels = [0, - 1, - 1, - 1],
        pk_normalized = False, pk_scale = [Fin 1, Fin 1, Fin 1, Fin 1],
        pk_offset = [Fin 0, Fin 0, Fin 0, Fin 0] \<rparr>]"
  by (simp add: packBandsAsData_def packsFrom.simps makePack_def Let_def useRGBA8_def
      activeChannels_def forceRGBA16F_of_def packChannels_def elemAt_def upt_rec
      packDataRGBA16F_def halfSample_def slotScale_def validBand_def isFloat_def bitsFor_def
      sampleMax_12 dgreater_def normalizedSample_def bandSample_def numberOf_def clampHalf_def
      f32ToF16Bits_def float32_defs f32ToF16Bits_body_def)

text \<open>
  The theorem at a one-pixel 12-bit raster holding 4095: the stored pattern is
  \<open>0x6C00\<close>, which denotes 4096.
\<close>

theorem twelve_bit_band_unscaled_witness:
  "forceRGBA16F_of forceHalfFormat
   \<and> pk_channels (ts_packs (packBandsAsData twelveBitRaster forceHalfFormat) ! 0) ! 0 = 0
   \<and> validBand twelveBitRaster 0
   \<and> \<not> isFloat (bands twelveBitRaster ! 0)
   \<and> bitsFor twelveBitRaster 0 = Some 12
   \<and> elemAt (samples (bands twelveBitRaster ! 0)) 0 = Some (Fin (of_nat 4095))
   \<and> pk_format (ts_packs (packBandsAsData twelveBitRaster forceHalfFormat) ! 0) = RGBA16F
   \<and> pk_scale (ts_packs (packBandsAsData twelveBitRaster forceHalfFormat) ! 0) ! 0 = Fin 1
   \<and> pk_offset (ts_packs (packBandsAsData twelveBitRaster forceHalfFormat) ! 0) ! 0 = Fin 0
   \<and> pk_data (ts_packs (packBandsAsData twelveBitRaster forceHalfFormat) ! 0) ! 0
       = f32ToF16Bits (Fin (of_nat 4095))
   \<and> f16Value (pk_data (ts_packs (packBandsAsData twelveBitRaster forceHalfFormat) ! 0) ! 0)
       \<le> 4096"
proof -
  let ?P = "ts_packs (packBandsAsData twelveBitRaster forceHalfFormat)"
  have q: "0 < length ?P"
    by (simp add: packBandsAsData_def Let_def packsFrom_length activeChannels_def)
  have k: "(0::nat) < 4" by simp
  have force: "forceRGBA16F_of forceHalfFormat" by (simp add: forceRGBA16F_of_def)
  have slot: "pk_channels (?P ! 0) ! 0 = 0" unfolding twelve_packs by simp
  have valid: "validBand twelveBitRaster 0" by (simp add: validBand_def)
  have integral: "\<not> isFloat (bands twelveBitRaster ! nat 0)" by (simp add: isFloat_def)
  have bits: "bitsFor twelveBitRaster (nat 0) = Some 12" by (simp add: bitsFor_def)
  have raw: "elemAt (samples (bands twelveBitRaster ! nat 0)) 0 = Some (Fin (of_nat 4095))"
    by (simp add: elemAt_def)
  have px: "(0::nat) < width twelveBitRaster * height twelveBitRaster" by simp
  note t = twelve_bit_band_unscaled [OF q k force slot valid integral bits]
  from t have a: "pk_format (?P ! 0) = RGBA16F" and b: "pk_scale (?P ! 0) ! 0 = Fin 1"
    and o: "pk_offset (?P ! 0) ! 0 = Fin 0"
    by blast+
  from t have "\<forall>i < width twelveBitRaster * height twelveBitRaster. \<forall>n \<le> 4095.
      elemAt (samples (bands twelveBitRaster ! nat 0)) i = Some (Fin (of_nat n)) \<longrightarrow>
        pk_data (?P ! 0) ! (4 * i + 0) = f32ToF16Bits (Fin (of_nat n))
        \<and> 0 \<le> f16Value (pk_data (?P ! 0) ! (4 * i + 0))
        \<and> f16Value (pk_data (?P ! 0) ! (4 * i + 0)) \<le> 4096"
    by blast
  note cd = this [rule_format, OF px order_refl raw]
  from cd have "pk_data (?P ! 0) ! (4 * 0 + 0) = f32ToF16Bits (Fin (of_nat 4095))" by blast
  then have c: "pk_data (?P ! 0) ! 0 = f32ToF16Bits (Fin (of_nat 4095))" by simp
  from cd have "f16Value (pk_data (?P ! 0) ! (4 * 0 + 0)) \<le> 4096" by blast
  then have d: "f16Value (pk_data (?P ! 0) ! 0) \<le> 4096" by simp
  have raw': "elemAt (samples (bands twelveBitRaster ! 0)) 0 = Some (Fin (of_nat 4095))"
    using raw by simp
  have integral': "\<not> isFloat (bands twelveBitRaster ! 0)" using integral by simp
  have bits': "bitsFor twelveBitRaster 0 = Some 12" using bits by simp
  from force slot valid integral' bits' raw' a b o c d show ?thesis by blast
qed

text \<open>
  The claim as stated fails there: the scale entry is 1, not 4095, and the stored
  pattern \<open>0x6C00\<close> denotes 4096, outside \<open>[0, 1]\<close>.
\<close>

theorem twelve_bit_scale_counterexample:
  "forceRGBA16F_of forceHalfFormat
   \<and> sampleMax (bitsFor twelveBitRaster 0) = Fin 4095
   \<and> pk_scale (ts_packs (packBandsAsData twelveBitRaster forceHalfFormat) ! 0) ! 0 = Fin 1
   \<and> pk_scale (ts_packs (packBandsAsData twelveBitRaster forceHalfFormat) ! 0) ! 0 \<noteq> Fin 4095
   \<and> pk_data (ts_packs (packBandsAsData twelveBitRaster forceHalfFormat) ! 0) ! 0 = 0x6C00
   \<and> f16Value (pk_data (ts_packs (packBandsAsData twelveBitRaster forceHalfFormat) ! 0) ! 0) = 4096
   \<and> \<not> f16Value (pk_data (ts_packs (packBandsAsData twelveBitRaster forceHalfFormat) ! 0) ! 0) \<le> 1"
  unfolding twelve_packs
  by (simp add: forceRGBA16F_of_def bitsFor_def sampleMax_12 f16Value_def)

section \<open>Properties of the mode classifier\<close>

text \<open>
  Claim C6.  The mode is a function of the hints and the raster, with no failing
  branch.  The interpretation in force is that of \<^verbatim>\<open>hints.formatResolved\<close>, or of
  \<^verbatim>\<open>hints.format\<close> when there is no resolved format.  When it is \<open>image\<close> or \<open>data\<close>
  the mode is that value, whatever the raster.  When it is \<open>auto\<close> or absent, the
  photometric tags RGB (2), YCbCr (6), CMYK (5), CIE-Lab (8) and Palette (3) give
  \<open>Image\<close>; the tags BlackIsZero (1) and WhiteIsZero (0) give \<open>Image\<close> for a
  single-band raster, that is, one sample per pixel, or no sample count and one band;
  every other raster gives \<open>Data\<close>: an absent tag, any other tag, and BlackIsZero or
  WhiteIsZero on several bands.
\<close>

theorem mode_classifier_cases:
  "(let forced = (case formatResolved h of
                    Some f \<Rightarrow> interpretationOpt f
                  | None \<Rightarrow> (case formatHint h of Some f \<Rightarrow> interpretationOpt f | None \<Rightarrow> None));
        tag = photometricInterpretation r;
        singleBand = (samplesPerPixel r = 1 \<or> samplesPerPixel r = 0 \<and> length (bands r) = 1)
    in (forced = Some InterpImage \<longrightarrow> textureSetMode r h = Image)
     \<and> (forced = Some InterpData \<longrightarrow> textureSetMode r h = Data)
     \<and> (forced = Some InterpAuto \<or> forced = None \<longrightarrow>
          (tag = Some 2 \<or> tag = Some 6 \<or> tag = Some 5 \<or> tag = Some 8 \<or> tag = Some 3
             \<longrightarrow> textureSetMode r h = Image)
        \<and> ((tag = Some 1 \<or> tag = Some 0) \<and> singleBand \<longrightarrow> textureSetMode r h = Image)
        \<and> ((tag = Some 1 \<or> tag = Some 0) \<and> \<not> singleBand \<longrightarrow> textureSetMode r h = Data)
        \<and> (tag = None \<longrightarrow> textureSetMode r h = Data)
        \<and> ((\<forall>t. tag = Some t \<longrightarrow> t \<notin> {0, 1, 2, 3, 5, 6, 8}) \<longrightarrow> textureSetMode r h = Data)))"
proof -
  let ?forced = "case formatResolved h of
                   Some f \<Rightarrow> interpretationOpt f
                 | None \<Rightarrow> (case formatHint h of Some f \<Rightarrow> interpretationOpt f | None \<Rightarrow> None)"
  have cfg: "configuredInterpretation h = (case ?forced of Some i \<Rightarrow> i | None \<Rightarrow> InterpAuto)"
    by (simp add: configuredInterpretation_def resolvedFormat_def resolveFormatFromHints_def
        emptyFormat_def split: option.splits)
  have spp: "effectiveSamplesPerPixel r = 1 \<longleftrightarrow>
      (samplesPerPixel r = 1 \<or> samplesPerPixel r = 0 \<and> length (bands r) = 1)"
    by (auto simp: effectiveSamplesPerPixel_def)
  have tags: "PI_WhiteIsZero = 0" "PI_BlackIsZero = 1" "PI_RGB = 2" "PI_Palette = 3"
    "PI_CMYK = 5" "PI_YCbCr = 6" "PI_CIELab = 8"
    by (simp_all add: PI_WhiteIsZero_def PI_BlackIsZero_def PI_RGB_def PI_Palette_def
        PI_CMYK_def PI_YCbCr_def PI_CIELab_def)
  have auto_mode: "textureSetMode r h = inferFromTIFFTags r"
    if "?forced = Some InterpAuto \<or> ?forced = None"
    using that by (auto simp: textureSetMode_def cfg Let_def)
  have image: "textureSetMode r h = Image" if "?forced = Some InterpImage"
    using that by (simp add: textureSetMode_def cfg Let_def)
  have data: "textureSetMode r h = Data" if "?forced = Some InterpData"
    using that by (simp add: textureSetMode_def cfg Let_def)
  have inferred:
    "(photometricInterpretation r = Some 2 \<or> photometricInterpretation r = Some 6
        \<or> photometricInterpretation r = Some 5 \<or> photometricInterpretation r = Some 8
        \<or> photometricInterpretation r = Some 3 \<longrightarrow> inferFromTIFFTags r = Image)
     \<and> ((photometricInterpretation r = Some 1 \<or> photometricInterpretation r = Some 0)
          \<and> (samplesPerPixel r = 1 \<or> samplesPerPixel r = 0 \<and> length (bands r) = 1)
          \<longrightarrow> inferFromTIFFTags r = Image)
     \<and> ((photometricInterpretation r = Some 1 \<or> photometricInterpretation r = Some 0)
          \<and> \<not> (samplesPerPixel r = 1 \<or> samplesPerPixel r = 0 \<and> length (bands r) = 1)
          \<longrightarrow> inferFromTIFFTags r = Data)
     \<and> (photometricInterpretation r = None \<longrightarrow> inferFromTIFFTags r = Data)
     \<and> ((\<forall>t. photometricInterpretation r = Some t \<longrightarrow> t \<notin> {0, 1, 2, 3, 5, 6, 8})
          \<longrightarrow> inferFromTIFFTags r = Data)"
    unfolding inferFromTIFFTags_def Let_def spp tags by auto
  show ?thesis
    unfolding Let_def using image data auto_mode inferred by presburger
qed

text \<open>
  The theorem at eight inputs.  Without a configured interpretation: a one-band
  BlackIsZero raster and a WhiteIsZero raster with no sample count and one band are
  images, a three-band RGB raster is an image, a two-band BlackIsZero raster, an
  untagged six-band raster and a raster tagged as a transparency mask (4) are data.
  With \<open>data\<close> configured in the hint format the RGB raster is data; with \<open>image\<close>
  configured in the resolved format, which goes before the hint format, the untagged
  raster is an image.
\<close>

theorem mode_classifier_cases_witness:
  "textureSetMode (taggedRaster (Some 1) 1 1) (hintsWithIndex None) = Image
   \<and> textureSetMode (taggedRaster (Some 0) 0 1) (hintsWithIndex None) = Image
   \<and> textureSetMode (taggedRaster (Some 2) 3 3) (hintsWithIndex None) = Image
   \<and> textureSetMode (taggedRaster (Some 1) 2 2) (hintsWithIndex None) = Data
   \<and> textureSetMode (taggedRaster None 6 6) (hintsWithIndex None) = Data
   \<and> textureSetMode (taggedRaster (Some 4) 1 1) (hintsWithIndex None) = Data
   \<and> textureSetMode (taggedRaster (Some 2) 3 3)
        \<lparr> imageIndex = None, formatResolved = None,
          formatHint = Some (emptyFormat \<lparr> interpretationOpt := Some InterpData \<rparr>) \<rparr> = Data
   \<and> textureSetMode (taggedRaster None 6 6)
        \<lparr> imageIndex = None,
          formatResolved = Some (emptyFormat \<lparr> interpretationOpt := Some InterpImage \<rparr>),
          formatHint = Some (emptyFormat \<lparr> interpretationOpt := Some InterpData \<rparr>) \<rparr> = Image"
proof -
  let ?forceData = "\<lparr> imageIndex = None, formatResolved = None,
          formatHint = Some (emptyFormat \<lparr> interpretationOpt := Some InterpData \<rparr>) \<rparr>"
  let ?forceImage = "\<lparr> imageIndex = None,
          formatResolved = Some (emptyFormat \<lparr> interpretationOpt := Some InterpImage \<rparr>),
          formatHint = Some (emptyFormat \<lparr> interpretationOpt := Some InterpData \<rparr>) \<rparr>"
  have "textureSetMode (taggedRaster (Some 1) 1 1) (hintsWithIndex None) = Image"
    using mode_classifier_cases [of "hintsWithIndex None" "taggedRaster (Some 1) 1 1"]
    by (simp add: Let_def)
  moreover have "textureSetMode (taggedRaster (Some 0) 0 1) (hintsWithIndex None) = Image"
    using mode_classifier_cases [of "hintsWithIndex None" "taggedRaster (Some 0) 0 1"]
    by (simp add: Let_def)
  moreover have "textureSetMode (taggedRaster (Some 2) 3 3) (hintsWithIndex None) = Image"
    using mode_classifier_cases [of "hintsWithIndex None" "taggedRaster (Some 2) 3 3"]
    by (simp add: Let_def)
  moreover have "textureSetMode (taggedRaster (Some 1) 2 2) (hintsWithIndex None) = Data"
    using mode_classifier_cases [of "hintsWithIndex None" "taggedRaster (Some 1) 2 2"]
    by (simp add: Let_def)
  moreover have "textureSetMode (taggedRaster None 6 6) (hintsWithIndex None) = Data"
    using mode_classifier_cases [of "hintsWithIndex None" "taggedRaster None 6 6"]
    by (simp add: Let_def)
  moreover have "textureSetMode (taggedRaster (Some 4) 1 1) (hintsWithIndex None) = Data"
    using mode_classifier_cases [of "hintsWithIndex None" "taggedRaster (Some 4) 1 1"]
    by (simp add: Let_def)
  moreover have "textureSetMode (taggedRaster (Some 2) 3 3) ?forceData = Data"
    using mode_classifier_cases [of ?forceData "taggedRaster (Some 2) 3 3"]
    by (simp add: Let_def emptyFormat_def)
  moreover have "textureSetMode (taggedRaster None 6 6) ?forceImage = Image"
    using mode_classifier_cases [of ?forceImage "taggedRaster None 6 6"]
    by (simp add: Let_def emptyFormat_def)
  ultimately show ?thesis by blast
qed

section \<open>Properties of the warning dedup\<close>

text \<open>
  The number of console calls made for a key, plus one while the key is not yet
  recorded, never grows.
\<close>

lemma logOnce_bound:
  "surfaced key (snd (logOnce k m mode st))
     + (if key \<in> echoOnce (snd (logOnce k m mode st)) then 0 else 1)
   \<le> surfaced key st + (if key \<in> echoOnce st then 0 else 1)"
  by (auto simp: logOnce_def surfaced_def Let_def)

lemma warnStep_bound:
  "surfaced key (warnStep ev st) + (if key \<in> echoOnce (warnStep ev st) then 0 else 1)
   \<le> surfaced key st + (if key \<in> echoOnce st then 0 else 1)"
proof (cases ev)
  case (WorkerWarn code message)
  then show ?thesis by (simp only: warnStep.simps onWarnMessage_def logOnce_bound)
next
  case (RenderChannels n)
  then show ?thesis
    by (cases "4 < n") (simp_all only: warnStep.simps renderChannelsCheck_def logOnce_bound if_True if_False order_refl)
next
  case NoWorkerFallback
  then show ?thesis by (simp only: warnStep.simps noWorkerFallbackWarning_def logOnce_bound)
next
  case (LogOnce k m mode)
  then show ?thesis by (simp only: warnStep.simps logOnce_bound)
qed

lemma warnRun_bound:
  "surfaced key (warnRun evs st) + (if key \<in> echoOnce (warnRun evs st) then 0 else 1)
   \<le> surfaced key st + (if key \<in> echoOnce st then 0 else 1)"
proof (induction evs arbitrary: st)
  case Nil
  then show ?case by (simp add: warnRun_def)
next
  case (Cons ev evs)
  have e: "warnRun (ev # evs) st = warnRun evs (warnStep ev st)" by (simp add: warnRun_def)
  show ?case unfolding e by (rule order_trans [OF Cons warnStep_bound])
qed

text \<open>
  Claim C8.  Over any sequence of worker warning messages, channel checks of the
  renderer, fallback warnings and direct \<^verbatim>\<open>logOnce\<close> calls, the console is called at
  most once more for a given key, and not at all when the key is already recorded;
  from a console with no output, a key is surfaced at most once.
\<close>

theorem warning_surfaced_at_most_once:
  "surfaced key (warnRun evs st) \<le> surfaced key st + (if key \<in> echoOnce st then 0 else 1)
   \<and> (consoleLog st = [] \<longrightarrow> surfaced key (warnRun evs st) \<le> 1)"
proof -
  have a: "surfaced key (warnRun evs st) \<le> surfaced key st + (if key \<in> echoOnce st then 0 else 1)"
    by (rule order_trans [OF _ warnRun_bound [of key evs st]]) simp
  have "surfaced key st = 0" if "consoleLog st = []" using that by (simp add: surfaced_def)
  with a show ?thesis by (auto split: if_splits)
qed

text \<open>
  Two successive renders that request six channels, and three identical worker
  warnings, each surface exactly one warning.
\<close>

theorem warning_surfaced_at_most_once_witness:
  "consoleLog freshConsole = []
   \<and> surfaced ''renderChannels>4_to_RGBA''
        (warnRun [RenderChannels 6, RenderChannels 6] freshConsole) = 1
   \<and> surfaced ''gpuPack_f16_clamp_worker''
        (warnRun [WorkerWarn (Some ''gpuPack_f16_clamp_worker'') (Some ''clamped''),
                  WorkerWarn (Some ''gpuPack_f16_clamp_worker'') (Some ''clamped''),
                  WorkerWarn (Some ''gpuPack_f16_clamp_worker'') (Some ''clamped'')]
           freshConsole) = 1"
proof -
  let ?a = "warnRun [RenderChannels 6, RenderChannels 6] freshConsole"
  let ?b = "warnRun [WorkerWarn (Some ''gpuPack_f16_clamp_worker'') (Some ''clamped''),
                  WorkerWarn (Some ''gpuPack_f16_clamp_worker'') (Some ''clamped''),
                  WorkerWarn (Some ''gpuPack_f16_clamp_worker'') (Some ''clamped'')]
           freshConsole"
  have e: "consoleLog freshConsole = []" by simp
  from warning_surfaced_at_most_once
    [of "''renderChannels>4_to_RGBA''" "[RenderChannels 6, RenderChannels 6]" freshConsole] e
  have a1: "surfaced ''renderChannels>4_to_RGBA'' ?a \<le> 1" by blast
  have a2: "1 \<le> surfaced ''renderChannels>4_to_RGBA'' ?a"
    by (simp add: warnRun_def renderChannelsCheck_def logOnce_def isConsoleMethod_def
        surfaced_def Let_def)
  from warning_surfaced_at_most_once
    [of "''gpuPack_f16_clamp_worker''" _ freshConsole] e
  have b1: "surfaced ''gpuPack_f16_clamp_worker'' ?b \<le> 1" by blast
  have b2: "1 \<le> surfaced ''gpuPack_f16_clamp_worker'' ?b"
    by (simp add: warnRun_def onWarnMessage_def orDefault_def logOnce_def isConsoleMethod_def
        surfaced_def Let_def)
  from e a1 a2 b1 b2 show ?thesis by simp
qed

section \<open>Properties of the worker pool\<close>

lemma leastLoaded_fold_less:
  "best < length ws \<Longrightarrow> set is \<subseteq> {..<length ws} \<Longrightarrow>
   fold (\<lambda>i best. if pending (ws ! i) < pending (ws ! best) then i else best) is best < length ws"
  by (induction "is" arbitrary: best) auto

lemma leastLoaded_less: "ws \<noteq> [] \<Longrightarrow> leastLoaded ws < length ws"
  unfolding leastLoaded_def by (rule leastLoaded_fold_less) auto

lemma tableDelete_tableSet:
  "k \<notin> fst ` set kvs \<Longrightarrow> tableDelete k (tableSet k v kvs) = kvs"
  by (induction kvs) (auto simp: tableDelete_def)

lemma fresh_id:
  "list_all (\<lambda>kv. fst kv < n) kvs \<Longrightarrow> n \<notin> fst ` set kvs" for n :: nat
  by (induction kvs) auto

text \<open>The invariant holds for a new pool and is kept by every operation.\<close>

lemma poolInvariant_newPool: "poolInvariant (newPool n)"
  by (simp add: poolInvariant_def newPool_def list_all_iff)

lemma list_all_update:
  "list_all P xs \<Longrightarrow> P x \<Longrightarrow> list_all P (xs[i := x])"
  by (auto simp: list_all_iff dest!: set_update_subset_insert [THEN subsetD])

lemma list_all_tableSet:
  "list_all P kvs \<Longrightarrow> P (k, v) \<Longrightarrow> list_all P (tableSet k v kvs)"
  by (induction kvs) auto

lemma list_all_tableDelete:
  "list_all P kvs \<Longrightarrow> list_all P (tableDelete k kvs)"
  by (auto simp: tableDelete_def list_all_iff)

lemma list_all_mono_nextId:
  "list_all (\<lambda>w. 0 \<le> pending w \<and> list_all (\<lambda>kv. fst kv < n) (callbacks w)) ws \<Longrightarrow>
   list_all (\<lambda>w. 0 \<le> pending w \<and> list_all (\<lambda>kv. fst kv < Suc n) (callbacks w)) ws"
  by (auto simp: list_all_iff less_Suc_eq)

lemma poolInvariant_request:
  assumes "poolInvariant st"
  shows "poolInvariant (snd (request post st))"
proof (cases "workers st = []")
  case True
  then show ?thesis by (simp add: request_def Let_def poolInvariant_def)
next
  case False
  let ?b = "leastLoaded (workers st)"
  let ?w = "workers st ! ?b"
  have b: "?b < length (workers st)" by (rule leastLoaded_less [OF False])
  from assms have all: "list_all (\<lambda>w. 0 \<le> pending w
      \<and> list_all (\<lambda>kv. fst kv < Suc (nextId st)) (callbacks w)) (workers st)"
    unfolding poolInvariant_def by (rule list_all_mono_nextId)
  with b have w: "0 \<le> pending ?w" "list_all (\<lambda>kv. fst kv < Suc (nextId st)) (callbacks ?w)"
    by (auto simp: list_all_iff)
  show ?thesis
  proof (cases post)
    case None
    have "list_all (\<lambda>w. 0 \<le> pending w
      \<and> list_all (\<lambda>kv. fst kv < Suc (nextId st)) (callbacks w))
       ((workers st)[?b := ?w\<lparr>pending := pending ?w + 1,
           callbacks := tableSet (nextId st) (length (promises st)) (callbacks ?w)\<rparr>])"
      using w by (intro list_all_update [OF all]) (simp add: list_all_tableSet)
    then show ?thesis using False None by (simp add: request_def Let_def poolInvariant_def)
  next
    case (Some e)
    have "list_all (\<lambda>w. 0 \<le> pending w
      \<and> list_all (\<lambda>kv. fst kv < Suc (nextId st)) (callbacks w))
       ((workers st)[?b := ?w\<lparr>callbacks := tableDelete (nextId st)
             (tableSet (nextId st) (length (promises st)) (callbacks ?w)),
           pending := max 0 (pending ?w)\<rparr>])"
      using w by (intro list_all_update [OF all]) (simp add: list_all_tableSet list_all_tableDelete)
    then show ?thesis using False Some by (simp add: request_def Let_def poolInvariant_def)
  qed
qed

lemma poolInvariant_onmessage:
  assumes "poolInvariant st"
  shows "poolInvariant (onmessage w msg st)"
proof (cases msg)
  case (WarnMessage code message)
  with assms show ?thesis by (simp add: onmessage_def poolInvariant_def)
next
  case (ReplyMessage rid ok result err)
  show ?thesis
  proof (cases "map_of (callbacks (workers st ! w)) rid")
    case None
    with assms ReplyMessage show ?thesis by (simp add: onmessage_def Let_def)
  next
    case (Some d)
    from assms have all: "list_all (\<lambda>w. 0 \<le> pending w
      \<and> list_all (\<lambda>kv. fst kv < nextId st) (callbacks w)) (workers st)"
      by (simp add: poolInvariant_def)
    show ?thesis
    proof (cases "w < length (workers st)")
      case True
      with all have "list_all (\<lambda>kv. fst kv < nextId st) (callbacks (workers st ! w))"
        by (auto simp: list_all_iff)
      then have "list_all (\<lambda>w. 0 \<le> pending w
          \<and> list_all (\<lambda>kv. fst kv < nextId st) (callbacks w))
         ((workers st)[w := (workers st ! w)\<lparr>callbacks := tableDelete rid (callbacks (workers st ! w)),
              pending := max 0 (pending (workers st ! w) - 1)\<rparr>])"
        by (intro list_all_update [OF all]) (simp add: list_all_tableDelete)
      then show ?thesis using ReplyMessage Some
        by (simp add: onmessage_def Let_def poolInvariant_def)
    next
      case False
      then show ?thesis using ReplyMessage Some all
        by (simp add: onmessage_def Let_def poolInvariant_def list_update_beyond)
    qed
  qed
qed

text \<open>
  Claim C10.  When \<^verbatim>\<open>postMessage\<close> throws \<open>e\<close>, \<^verbatim>\<open>request\<close> leaves every worker's
  pending count and correlation table as they were before the call, and the promise
  it returns is rejected with \<open>e\<close>; only the id counter has advanced.
\<close>

theorem request_failed_post_restores:
  assumes inv: "poolInvariant st" and ne: "workers st \<noteq> []"
  shows "request (Some e) st =
     (Returned (length (promises st)),
      st \<lparr> nextId := nextId st + 1, promises := promises st @ [Rejected e] \<rparr>)"
proof -
  let ?b = "leastLoaded (workers st)"
  let ?w = "workers st ! ?b"
  have b: "?b < length (workers st)" by (rule leastLoaded_less [OF ne])
  then have mem: "?w \<in> set (workers st)" by simp
  from inv mem have p: "0 \<le> pending ?w"
    and ids: "list_all (\<lambda>kv. fst kv < nextId st) (callbacks ?w)"
    by (auto simp: poolInvariant_def list_all_iff)
  have cb: "tableDelete (nextId st)
      (tableSet (nextId st) (length (promises st)) (callbacks ?w)) = callbacks ?w"
    by (rule tableDelete_tableSet [OF fresh_id [OF ids]])
  have pd: "max 0 (pending ?w) = pending ?w" using p by simp
  have w: "?w \<lparr> pending := pending ?w, callbacks := callbacks ?w \<rparr> = ?w" by simp
  have st: "settle (promises st @ [Pending]) (length (promises st)) (Rejected e)
      = promises st @ [Rejected e]"
    by (simp add: settle_def)
  show ?thesis
    using ne by (simp add: request_def Let_def cb pd st)
qed

text \<open>
  The theorem on a pool of two workers with one request in flight: a second request
  whose post throws leaves the first worker at one pending request.
\<close>

theorem request_failed_post_restores_witness:
  "poolInvariant (snd (request None (newPool 2 :: unit mainThread)))
   \<and> workers (snd (request None (newPool 2 :: unit mainThread)))
       = [\<lparr> pending = 1, callbacks = [(1, 0)] \<rparr>, \<lparr> pending = 0, callbacks = [] \<rparr>]
   \<and> request (Some ''DataCloneError'') (snd (request None (newPool 2 :: unit mainThread)))
       = (Returned 1,
          \<lparr> workers = [\<lparr> pending = 1, callbacks = [(1, 0)] \<rparr>, \<lparr> pending = 0, callbacks = [] \<rparr>],
            nextId = 3, promises = [Pending, Rejected ''DataCloneError''],
            console = \<lparr> echoOnce = {}, consoleLog = [] \<rparr> \<rparr>)"
proof -
  let ?s1 = "snd (request None (newPool 2 :: unit mainThread))"
  have s1: "?s1 = \<lparr> workers = [\<lparr> pending = 1, callbacks = [(1, 0)] \<rparr>,
                               \<lparr> pending = 0, callbacks = [] \<rparr>],
            nextId = 2, promises = [Pending],
            console = \<lparr> echoOnce = {}, consoleLog = [] \<rparr> \<rparr>"
    by (simp add: request_def newPool_def leastLoaded_def Let_def numeral_2_eq_2)
  have inv: "poolInvariant ?s1" by (rule poolInvariant_request [OF poolInvariant_newPool])
  have ne: "workers ?s1 \<noteq> []" by (simp add: s1)
  from request_failed_post_restores [OF inv ne, of "''DataCloneError''"] inv
  show ?thesis by (simp add: s1)
qed

section \<open>Properties of the raster decoder\<close>

lemma showNat_not_empty: "showNat n \<noteq> []"
  by (subst showNat.simps) simp

text \<open>
  Claim C7, as amended.  The decode operation posts exactly one reply, an error reply
  with a non-empty message, whenever the container does not hold exactly one image
  and either no image index was supplied or the supplied index is below 0 or at
  least the image count.  For a container of exactly one image the supplied index is
  not looked at: whatever the hints say, image 0 is read, and the single reply is what
  reading that image gives.
\<close>

theorem decode_index_error_reply:
  "(length imgs \<noteq> 1
      \<and> (imageIndex hints = None
           \<or> (\<exists>i. imageIndex hints = Some i \<and> (i < 0 \<or> int (length imgs) \<le> i)))
      \<longrightarrow> (\<exists>message. onDecodeRaster rid (Images imgs) hints = [ReplyError rid message]
             \<and> message \<noteq> []))
   \<and> (length imgs = 1
      \<longrightarrow> decodeRasterFromArrayBuffer (Images imgs) hints = readImage (imgs ! 0)
        \<and> onDecodeRaster rid (Images imgs) hints =
            onDecodeRaster rid (Images imgs) (hints \<lparr> imageIndex := Some 0 \<rparr>)
        \<and> onDecodeRaster rid (Images imgs) hints =
            (case readImage (imgs ! 0) of
               Returned result \<Rightarrow> [ReplyOk rid result]
             | Thrown e \<Rightarrow> [ReplyError rid (errorToPlain e)]))"
  by (auto simp: onDecodeRaster_def decodeRasterFromArrayBuffer_def Let_def errorToPlain_def)

text \<open>
  The theorem at a container of two images, without an index, with index 2 and with
  index -1, and at a container of one image with index -3.
\<close>

theorem decode_index_error_reply_witness:
  "length [grayImage, grayImage] \<noteq> 1
   \<and> onDecodeRaster 7 (Images [grayImage, grayImage]) (hintsWithIndex None)
       = [ReplyError 7 ''[RawTiffPlugin] TIFF has 2 images; provide rawTiff.hints.imageIndex to decode.'']
   \<and> onDecodeRaster 8 (Images [grayImage, grayImage]) (hintsWithIndex (Some 2))
       = [ReplyError 8 ''[RawTiffPlugin] imageIndex 2 out of range (0..1).'']
   \<and> onDecodeRaster 9 (Images [grayImage, grayImage]) (hintsWithIndex (Some (- 1)))
       = [ReplyError 9 ''[RawTiffPlugin] imageIndex -1 out of range (0..1).'']
   \<and> length [grayImage] = 1
   \<and> onDecodeRaster 10 (Images [grayImage]) (hintsWithIndex (Some (- 3)))
       = onDecodeRaster 10 (Images [grayImage]) (hintsWithIndex (Some 0))
   \<and> onDecodeRaster 10 (Images [grayImage]) (hintsWithIndex (Some (- 3)))
       = [ReplyOk 10 \<lparr> width = 1, height = 1,
                        bands = [\<lparr> ctor = Uint8Array, samples = [Fin 128] \<rparr>],
                        samplesPerPixel = 1, bitsPerSample = Some [8],
                        photometricInterpretation = Some 1 \<rparr>]"
proof -
  have n: "length [grayImage, grayImage] \<noteq> 1" by simp
  have "\<exists>message. onDecodeRaster 7 (Images [grayImage, grayImage]) (hintsWithIndex None)
          = [ReplyError 7 message] \<and> message \<noteq> []"
    using decode_index_error_reply [of "[grayImage, grayImage]" "hintsWithIndex None" 7] by simp
  moreover have "\<exists>message. onDecodeRaster 8 (Images [grayImage, grayImage]) (hintsWithIndex (Some 2))
          = [ReplyError 8 message] \<and> message \<noteq> []"
    using decode_index_error_reply [of "[grayImage, grayImage]" "hintsWithIndex (Some 2)" 8] by simp
  moreover have "\<exists>message. onDecodeRaster 9 (Images [grayImage, grayImage]) (hintsWithIndex (Some (- 1)))
          = [ReplyError 9 message] \<and> message \<noteq> []"
    using decode_index_error_reply [of "[grayImage, grayImage]" "hintsWithIndex (Some (- 1))" 9] by simp
  moreover have "decodeRasterFromArrayBuffer (Images [grayImage]) (hintsWithIndex (Some (- 3)))
       = readImage ([grayImage] ! 0)"
    using decode_index_error_reply [of "[grayImage]" "hintsWithIndex (Some (- 3))" 10]
    by (simp only: list.size One_nat_def add_0 simp_thms)
  ultimately show ?thesis
    by (simp add: onDecodeRaster_def decodeRasterFromArrayBuffer_def Let_def errorToPlain_def
        showInt_def showNat.simps digitChar_def readImage_def)
qed

text \<open>
  The claim as stated fails for a container of one image: the supplied index 5 is at
  least the image count, yet the index is replaced by 0 and the reply is the decoded
  image.
\<close>

theorem decode_single_image_counterexample:
  "int (length [grayImage]) \<le> 5
   \<and> onDecodeRaster 7 (Images [grayImage]) (hintsWithIndex (Some 5))
       = [ReplyOk 7 \<lparr> width = 1, height = 1,
                       bands = [\<lparr> ctor = Uint8Array, samples = [Fin 128] \<rparr>],
                       samplesPerPixel = 1, bitsPerSample = Some [8],
                       photometricInterpretation = Some 1 \<rparr>]"
  by (simp add: onDecodeRaster_def decodeRasterFromArrayBuffer_def readImage_def)

section \<open>Properties of the format resolver\<close>

text \<open>
  Property order is kept by every assignment, a list in property order is its own
  \<^verbatim>\<open>Object.assign\<close> copy, and the loop of \<^verbatim>\<open>deepMerge\<close> is described key by key.
\<close>

lemma deepMerge_JObj:
  "deepMerge a (JObj b) = Option.bind (objectAssign a) (\<lambda>out. mergeInto out b)"
  by (simp add: deepMerge_def)

lemma mergeInto_Nil: "mergeInto out [] = Some out"
  by (simp add: mergeInto.simps)

lemma case_option_bind: "(case x of None \<Rightarrow> None | Some y \<Rightarrow> f y) = Option.bind x f"
  by (cases x) simp_all

lemma mergeInto_Cons:
  "mergeInto out ((k, bv) # rest) =
     Option.bind (newValue out k bv)
       (\<lambda>v. Option.bind (assignValue k v out) (\<lambda>out'. mergeInto out' rest))"
proof -
  have e: "Option.bind (objectAssign ao) (\<lambda>copy. map_option JObj (mergeInto copy bo))
         = map_option JObj (deepMerge ao (JObj bo))" for ao bo
    by (cases "objectAssign ao") (simp_all add: deepMerge_JObj)
  show ?thesis
    by (simp only: mergeInto.simps Let_def newValue_def case_option_bind e)
qed

lemma precedes_asym: "precedes k k' \<Longrightarrow> \<not> precedes k' k"
  by (auto simp: precedes_def split: option.splits)

lemma precedes_trans: "precedes j k \<Longrightarrow> precedes k k' \<Longrightarrow> precedes j k'"
  by (auto simp: precedes_def split: option.splits)

lemma set_insertProperty: "set (insertProperty k v kvs) = insert (k, v) (set kvs)"
  by (induction kvs) (auto split: if_splits)

lemma keys_insertProperty: "fst ` set (insertProperty k v kvs) = insert k (fst ` set kvs)"
  by (simp add: set_insertProperty)

lemma distinct_insertProperty:
  "k \<notin> fst ` set kvs \<Longrightarrow> distinct (map fst kvs) \<Longrightarrow> distinct (map fst (insertProperty k v kvs))"
  by (induction kvs) (auto simp: keys_insertProperty)

lemma inOrder_insertProperty:
  "inOrder (map fst kvs) \<Longrightarrow> inOrder (map fst (insertProperty k v kvs))"
proof (induction kvs)
  case Nil
  then show ?case by simp
next
  case (Cons kv kvs)
  obtain k' v' where kv: "kv = (k', v')" by (cases kv)
  show ?case
  proof (cases "precedes k k'")
    case True
    have "\<not> precedes y k" if "y \<in> fst ` set kvs" for y
    proof
      assume "precedes y k"
      then have "precedes y k'" using True by (rule precedes_trans)
      with Cons.prems that show False by (auto simp: kv)
    qed
    with True Cons.prems precedes_asym [OF True] show ?thesis by (auto simp: kv)
  next
    case False
    with Cons show ?thesis by (auto simp: kv keys_insertProperty)
  qed
qed

lemma map_of_insertProperty:
  "k \<notin> fst ` set kvs \<Longrightarrow>
   map_of (insertProperty k v kvs) k' = (if k' = k then Some v else map_of kvs k')"
  by (induction kvs) auto

lemma map_of_tableSet: "map_of (tableSet k v kvs) k' = (if k' = k then Some v else map_of kvs k')"
  by (induction kvs) auto

lemma tableSet_same: "map_of kvs k = Some v \<Longrightarrow> tableSet k v kvs = kvs"
  by (induction kvs) (auto split: if_splits)

lemma keys_tableSet: "k \<in> fst ` set kvs \<Longrightarrow> map fst (tableSet k v kvs) = map fst kvs"
  by (induction kvs) force+

lemma map_of_setProperty:
  "map_of (setProperty k v kvs) k' = (if k' = k then Some v else map_of kvs k')"
  by (simp add: setProperty_def map_of_tableSet map_of_insertProperty)

lemma setProperty_same: "map_of kvs k = Some v \<Longrightarrow> setProperty k v kvs = kvs"
proof -
  assume a: "map_of kvs k = Some v"
  then have "(k, v) \<in> set kvs" by (rule map_of_SomeD)
  then have "k \<in> fst ` set kvs" by (rule rev_image_eqI) simp
  with a show ?thesis by (simp add: setProperty_def tableSet_same)
qed

lemma keys_setProperty: "fst ` set (setProperty k v kvs) = insert k (fst ` set kvs)"
proof (cases "k \<in> fst ` set kvs")
  case True
  have "fst ` set (tableSet k v kvs) = set (map fst (tableSet k v kvs))" by simp
  also have "\<dots> = fst ` set kvs" by (simp only: keys_tableSet [OF True]) simp
  finally show ?thesis using True by (auto simp: setProperty_def)
next
  case False
  then show ?thesis by (simp add: setProperty_def keys_insertProperty)
qed

lemma distinct_setProperty:
  "distinct (map fst kvs) \<Longrightarrow> distinct (map fst (setProperty k v kvs))"
  by (simp add: setProperty_def keys_tableSet distinct_insertProperty)

lemma inOrder_setProperty:
  "inOrder (map fst kvs) \<Longrightarrow> inOrder (map fst (setProperty k v kvs))"
  by (simp add: setProperty_def keys_tableSet inOrder_insertProperty)

lemma inOrder_append:
  "inOrder (xs @ ys) \<Longrightarrow> (\<forall>x \<in> set xs. \<forall>y \<in> set ys. \<not> precedes y x)"
  by (induction xs) auto

lemma insertProperty_last:
  "(\<forall>x \<in> fst ` set out. \<not> precedes k x) \<Longrightarrow> insertProperty k v out = out @ [(k, v)]"
  by (induction out) auto

lemma assignAll_append:
  "distinct (map fst (out @ xs)) \<Longrightarrow> inOrder (map fst (out @ xs)) \<Longrightarrow>
   ''__proto__'' \<notin> fst ` set xs \<Longrightarrow> assignAll out xs = Some (out @ xs)"
proof (induction xs arbitrary: out)
  case Nil
  then show ?case by simp
next
  case (Cons kv xs)
  obtain k v where kv: "kv = (k, v)" by (cases kv)
  from Cons.prems(3) have np: "k \<noteq> ''__proto__''" by (auto simp: kv)
  from Cons.prems(1) have fresh: "k \<notin> fst ` set out" by (auto simp: kv)
  from Cons.prems(2) have "inOrder (map fst out @ (k # map fst xs))" by (simp add: kv)
  from inOrder_append [OF this] have "\<forall>x \<in> fst ` set out. \<not> precedes k x" by auto
  then have ins: "insertProperty k v out = out @ [(k, v)]" by (rule insertProperty_last)
  have step: "assignValue k v out = Some (out @ [(k, v)])"
    using np fresh by (simp add: assignValue_def setProperty_def ins)
  have "assignAll (out @ [(k, v)]) xs = Some ((out @ [(k, v)]) @ xs)"
    using Cons.prems by (intro Cons.IH) (auto simp: kv)
  with step show ?case by (simp add: kv)
qed

lemma objectAssign_plain: "plainConfig (JObj a) \<Longrightarrow> objectAssign a = Some a"
  using assignAll_append [of "[]" a] by (simp add: objectAssign_def)

lemma deepMerge_plain:
  "plainConfig (JObj a) \<Longrightarrow> deepMerge a (JObj b) = mergeInto a b"
  by (simp add: deepMerge_JObj objectAssign_plain)

lemma newValue_cong: "map_of out k = map_of out' k \<Longrightarrow> newValue out k bv = newValue out' k bv"
  by (cases bv) (simp_all add: newValue_def)

lemma assignValue_ordinary:
  "k \<noteq> ''__proto__'' \<Longrightarrow> assignValue k v out = Some (setProperty k v out)"
  by (simp add: assignValue_def)

lemma mergeInto_stable:
  "(\<And>k bv. (k, bv) \<in> set b \<Longrightarrow>
      k \<noteq> ''__proto__'' \<and> (\<exists>v. newValue out k bv = Some v \<and> map_of out k = Some v)) \<Longrightarrow>
   mergeInto out b = Some out"
proof (induction b)
  case Nil
  then show ?case by (simp add: mergeInto_Nil)
next
  case (Cons kv b)
  obtain k1 bv1 where kv: "kv = (k1, bv1)" by (cases kv)
  have "k1 \<noteq> ''__proto__'' \<and> (\<exists>v. newValue out k1 bv1 = Some v \<and> map_of out k1 = Some v)"
    by (rule Cons.prems) (simp add: kv)
  then obtain v where np: "k1 \<noteq> ''__proto__''" and nv: "newValue out k1 bv1 = Some v"
    and cur: "map_of out k1 = Some v" by blast
  have "assignValue k1 v out = Some out"
    by (simp add: assignValue_ordinary [OF np] setProperty_same [OF cur])
  moreover have "mergeInto out b = Some out"
  proof (rule Cons.IH)
    fix k bv assume "(k, bv) \<in> set b"
    then have "(k, bv) \<in> set (kv # b)" by simp
    then show "k \<noteq> ''__proto__'' \<and> (\<exists>v. newValue out k bv = Some v \<and> map_of out k = Some v)"
      by (rule Cons.prems)
  qed
  ultimately show ?case by (simp add: kv mergeInto_Cons nv)
qed

lemma mergeInto_result:
  "distinct (map fst b) \<Longrightarrow> ''__proto__'' \<notin> fst ` set b \<Longrightarrow>
   (\<And>k bv. (k, bv) \<in> set b \<Longrightarrow> newValue out k bv \<noteq> None) \<Longrightarrow>
   \<exists>r. mergeInto out b = Some r
     \<and> (\<forall>k. map_of r k = (case map_of b k of None \<Rightarrow> map_of out k | Some bv \<Rightarrow> newValue out k bv))
     \<and> fst ` set r = fst ` set out \<union> fst ` set b
     \<and> (distinct (map fst out) \<longrightarrow> distinct (map fst r))
     \<and> (inOrder (map fst out) \<longrightarrow> inOrder (map fst r))"
proof (induction b arbitrary: out)
  case Nil
  then show ?case by (simp add: mergeInto_Nil)
next
  case (Cons kv b)
  obtain k1 bv1 where kv: "kv = (k1, bv1)" by (cases kv)
  from Cons.prems(1) kv have d: "distinct (map fst b)" and nk: "k1 \<notin> fst ` set b" by auto
  from Cons.prems(2) kv have np: "k1 \<noteq> ''__proto__''" and npb: "''__proto__'' \<notin> fst ` set b"
    by auto
  from Cons.prems(3) [of k1 bv1] obtain v1 where nv1: "newValue out k1 bv1 = Some v1"
    by (auto simp: kv)
  let ?out = "setProperty k1 v1 out"
  have same: "newValue ?out k bv = newValue out k bv" if "(k, bv) \<in> set b" for k bv
  proof -
    from that nk have "k \<noteq> k1" by force
    then have "map_of ?out k = map_of out k" by (simp add: map_of_setProperty)
    then show ?thesis by (rule newValue_cong)
  qed
  have "\<exists>r. mergeInto ?out b = Some r
     \<and> (\<forall>k. map_of r k = (case map_of b k of None \<Rightarrow> map_of ?out k | Some bv \<Rightarrow> newValue ?out k bv))
     \<and> fst ` set r = fst ` set ?out \<union> fst ` set b
     \<and> (distinct (map fst ?out) \<longrightarrow> distinct (map fst r))
     \<and> (inOrder (map fst ?out) \<longrightarrow> inOrder (map fst r))"
  proof (rule Cons.IH [OF d npb])
    fix k bv assume m: "(k, bv) \<in> set b"
    then have "newValue out k bv \<noteq> None" by (intro Cons.prems(3)) simp
    with same [OF m] show "newValue ?out k bv \<noteq> None" by simp
  qed
  then obtain r where r: "mergeInto ?out b = Some r"
    and look: "\<And>k. map_of r k =
        (case map_of b k of None \<Rightarrow> map_of ?out k | Some bv \<Rightarrow> newValue ?out k bv)"
    and keys: "fst ` set r = fst ` set ?out \<union> fst ` set b"
    and dist: "distinct (map fst ?out) \<longrightarrow> distinct (map fst r)"
    and ord: "inOrder (map fst ?out) \<longrightarrow> inOrder (map fst r)"
    by blast
  have run: "mergeInto out (kv # b) = Some r"
    by (simp add: kv mergeInto_Cons nv1 assignValue_ordinary [OF np] r)
  have look': "map_of r k =
      (case map_of (kv # b) k of None \<Rightarrow> map_of out k | Some bv \<Rightarrow> newValue out k bv)" for k
  proof (cases "k = k1")
    case True
    from nk have "map_of b k1 = None" by (simp add: map_of_eq_None_iff)
    with look [of k1] True show ?thesis by (simp add: kv map_of_setProperty nv1)
  next
    case False
    show ?thesis
    proof (cases "map_of b k")
      case None
      with look [of k] False show ?thesis by (simp add: kv map_of_setProperty)
    next
      case (Some bv)
      then have "(k, bv) \<in> set b" by (rule map_of_SomeD)
      from same [OF this] look [of k] Some False show ?thesis by (simp add: kv)
    qed
  qed
  have keys': "fst ` set r = fst ` set out \<union> fst ` set (kv # b)"
    using keys by (auto simp: keys_setProperty kv)
  from run look' keys' dist ord show ?case
    by (auto simp: distinct_setProperty inOrder_setProperty)
qed

lemma plainConfig_value:
  "plainConfig (JObj kvs) \<Longrightarrow> (k, v) \<in> set kvs \<Longrightarrow> plainConfig v"
  by (auto simp: list_all_iff)

lemma plainConfig_lookup:
  "plainConfig (JObj kvs) \<Longrightarrow> map_of kvs k = Some v \<Longrightarrow> plainConfig v"
  by (blast intro: plainConfig_value dest: map_of_SomeD)

lemma mergeInto_plain:
  "plainConfig j \<Longrightarrow> j = JObj b \<Longrightarrow>
     (\<forall>a. plainConfig (JObj a) \<longrightarrow>
        (\<exists>r. mergeInto a b = Some r \<and> plainConfig (JObj r) \<and> mergeInto r b = Some r
           \<and> (\<forall>k. map_of r k =
                 (case map_of b k of None \<Rightarrow> map_of a k | Some bv \<Rightarrow> newValue a k bv))))
     \<and> mergeInto b b = Some b"
proof (induction j arbitrary: b)
  case (JObj kvs)
  then have b: "kvs = b" by simp
  from JObj.prems(1) b have wf: "plainConfig (JObj b)" by simp
  then have d: "distinct (map fst b)" and o: "inOrder (map fst b)"
    and np: "''__proto__'' \<notin> fst ` set b" by simp_all
  have look: "map_of b k = Some bv" if "(k, bv) \<in> set b" for k bv
    using d that by simp
  have ih: "(\<forall>a. plainConfig (JObj a) \<longrightarrow>
        (\<exists>r. mergeInto a bo = Some r \<and> plainConfig (JObj r) \<and> mergeInto r bo = Some r))
     \<and> mergeInto bo bo = Some bo"
    if "(k, JObj bo) \<in> set b" for k bo
  proof -
    from that b have "(k, JObj bo) \<in> set kvs" by simp
    moreover have "JObj bo \<in> Basic_BNFs.snds (k, JObj bo)" by simp
    moreover have "plainConfig (JObj bo)" by (rule plainConfig_value [OF wf that])
    ultimately have "(\<forall>a. plainConfig (JObj a) \<longrightarrow>
        (\<exists>r. mergeInto a bo = Some r \<and> plainConfig (JObj r) \<and> mergeInto r bo = Some r
           \<and> (\<forall>k. map_of r k =
                 (case map_of bo k of None \<Rightarrow> map_of a k | Some bv \<Rightarrow> newValue a k bv))))
     \<and> mergeInto bo bo = Some bo"
      by (intro JObj.IH) auto
    then show ?thesis by blast
  qed
  have nv: "\<exists>v. newValue out k bv = Some v \<and> plainConfig v
              \<and> (\<forall>out'. map_of out' k = Some v \<longrightarrow> newValue out' k bv = Some v)"
    if out: "plainConfig (JObj out)" and m: "(k, bv) \<in> set b" for out k bv
  proof (cases "\<exists>bo. bv = JObj bo")
    case False
    then have "newValue out' k bv = Some bv" for out'
      by (cases bv) (simp_all add: newValue_def)
    moreover from False have "plainConfig bv" by (cases bv) simp_all
    ultimately show ?thesis by blast
  next
    case True
    then obtain bo where bv: "bv = JObj bo" by blast
    have pbo: "plainConfig (JObj bo)" using plainConfig_value [OF wf m] by (simp add: bv)
    note i = ih [OF m [unfolded bv]]
    show ?thesis
    proof (cases "\<exists>ao. map_of out k = Some (JObj ao)")
      case True
      then obtain ao where ao: "map_of out k = Some (JObj ao)" by blast
      have pao: "plainConfig (JObj ao)" by (rule plainConfig_lookup [OF out ao])
      from i pao obtain r where r: "mergeInto ao bo = Some r" "plainConfig (JObj r)"
        "mergeInto r bo = Some r" by blast
      have "newValue out k bv = Some (JObj r)"
        by (simp add: newValue_def bv ao deepMerge_plain [OF pao] r(1))
      moreover have "newValue out' k bv = Some (JObj r)" if "map_of out' k = Some (JObj r)" for out'
        by (simp add: newValue_def bv that deepMerge_plain [OF r(2)] r(3))
      ultimately show ?thesis using r(2) by blast
    next
      case False
      then have "newValue out k bv = Some (JObj bo)"
        by (auto simp: newValue_def bv split: option.splits json.splits)
      moreover have "newValue out' k bv = Some (JObj bo)" if "map_of out' k = Some (JObj bo)" for out'
        using i by (simp add: newValue_def bv that deepMerge_plain [OF pbo])
      ultimately show ?thesis using pbo bv by blast
    qed
  qed
  have self: "mergeInto b b = Some b"
  proof (rule mergeInto_stable)
    fix k bv assume m: "(k, bv) \<in> set b"
    from m np have k: "k \<noteq> ''__proto__''" by force
    have "newValue b k bv = Some bv"
    proof (cases "\<exists>bo. bv = JObj bo")
      case True
      then obtain bo where bv: "bv = JObj bo" by blast
      have pbo: "plainConfig (JObj bo)" using plainConfig_value [OF wf m] by (simp add: bv)
      from ih [OF m [unfolded bv]] have "mergeInto bo bo = Some bo" by blast
      then show ?thesis
        using look [OF m] by (simp add: newValue_def bv deepMerge_plain [OF pbo])
    next
      case False
      then show ?thesis by (cases bv) (simp_all add: newValue_def)
    qed
    with k look [OF m]
    show "k \<noteq> ''__proto__'' \<and> (\<exists>v. newValue b k bv = Some v \<and> map_of b k = Some v)" by simp
  qed
  have main: "\<exists>r. mergeInto a b = Some r \<and> plainConfig (JObj r) \<and> mergeInto r b = Some r
           \<and> (\<forall>k. map_of r k =
                 (case map_of b k of None \<Rightarrow> map_of a k | Some bv \<Rightarrow> newValue a k bv))"
    if a: "plainConfig (JObj a)" for a
  proof -
    have "\<exists>r. mergeInto a b = Some r
       \<and> (\<forall>k. map_of r k = (case map_of b k of None \<Rightarrow> map_of a k | Some bv \<Rightarrow> newValue a k bv))
       \<and> fst ` set r = fst ` set a \<union> fst ` set b
       \<and> (distinct (map fst a) \<longrightarrow> distinct (map fst r))
       \<and> (inOrder (map fst a) \<longrightarrow> inOrder (map fst r))"
    proof (rule mergeInto_result [OF d np])
      fix k bv assume "(k, bv) \<in> set b"
      from nv [OF a this] show "newValue a k bv \<noteq> None" by auto
    qed
    then obtain r where r: "mergeInto a b = Some r"
      and lk: "\<And>k. map_of r k =
          (case map_of b k of None \<Rightarrow> map_of a k | Some bv \<Rightarrow> newValue a k bv)"
      and keys: "fst ` set r = fst ` set a \<union> fst ` set b"
      and dist: "distinct (map fst r)" and ord: "inOrder (map fst r)"
      using a by auto
    have npr: "''__proto__'' \<notin> fst ` set r" using keys np a by simp
    have vals: "plainConfig v" if "(k, v) \<in> set r" for k v
    proof -
      from dist that have l: "map_of r k = Some v" by simp
      show ?thesis
      proof (cases "map_of b k")
        case None
        with lk [of k] l have "map_of a k = Some v" by simp
        then show ?thesis by (rule plainConfig_lookup [OF a])
      next
        case (Some bv)
        then have m: "(k, bv) \<in> set b" by (rule map_of_SomeD)
        from nv [OF a m] lk [of k] l Some show ?thesis by auto
      qed
    qed
    have pr: "plainConfig (JObj r)"
      using dist ord npr vals by (auto simp: list_all_iff)
    have idem: "mergeInto r b = Some r"
    proof (rule mergeInto_stable)
      fix k bv assume m: "(k, bv) \<in> set b"
      from m np have k: "k \<noteq> ''__proto__''" by force
      from nv [OF a m] obtain v where v: "newValue a k bv = Some v"
        and st: "\<And>out'. map_of out' k = Some v \<Longrightarrow> newValue out' k bv = Some v" by blast
      from lk [of k] look [OF m] v have l: "map_of r k = Some v" by simp
      from st [OF l] l k
      show "k \<noteq> ''__proto__'' \<and> (\<exists>v. newValue r k bv = Some v \<and> map_of r k = Some v)" by simp
    qed
    from r pr idem lk show ?thesis by blast
  qed
  from main self show ?case by blast
qed simp_all

text \<open>Unfolding the merge on concrete objects.\<close>

lemmas merge_eval =
  deepMerge_def objectAssign_def assignValue_def setProperty_def precedes_def arrayIndex_def
  digitValue_def mergeInto.simps Let_def showNat.simps digitChar_def

text \<open>
  Claim C9.  For configuration objects \<open>a\<close> and \<open>b\<close> with no key \<^verbatim>\<open>__proto__\<close>, the
  merge returns an object \<open>r\<close>, merging \<open>b\<close> into \<open>r\<close> a second time returns \<open>r\<close> again,
  property for property and in the same order, and \<open>r\<close> is again such a configuration
  object.  The merge works key by key: a key that \<open>b\<close> does not set keeps the value of
  \<open>a\<close>, a plain object set by \<open>b\<close> over a plain object of \<open>a\<close> is merged recursively,
  and every other value of \<open>b\<close>, array or scalar, replaces the value of \<open>a\<close> whole.  A
  \<^verbatim>\<open>null\<close> layer returns \<open>a\<close>.
\<close>

theorem deepMerge_keywise_idempotent:
  assumes "plainConfig (JObj a)" and "plainConfig (JObj b)"
  shows "\<exists>r. deepMerge a (JObj b) = Some r
    \<and> deepMerge r (JObj b) = Some r
    \<and> plainConfig (JObj r)
    \<and> (\<forall>k. map_of r k =
          (case map_of b k of
             None \<Rightarrow> map_of a k
           | Some (JObj bo) \<Rightarrow>
               (case map_of a k of
                  Some (JObj ao) \<Rightarrow> map_option JObj (deepMerge ao (JObj bo))
                | _ \<Rightarrow> Some (JObj bo))
           | Some bv \<Rightarrow> Some bv))
    \<and> deepMerge a JNull = Some a"
proof -
  from mergeInto_plain [OF assms(2) refl] assms(1)
  obtain r where r: "mergeInto a b = Some r" "plainConfig (JObj r)" "mergeInto r b = Some r"
    and lk: "\<And>k. map_of r k =
        (case map_of b k of None \<Rightarrow> map_of a k | Some bv \<Rightarrow> newValue a k bv)"
    by blast
  have l: "map_of r k =
          (case map_of b k of
             None \<Rightarrow> map_of a k
           | Some (JObj bo) \<Rightarrow>
               (case map_of a k of
                  Some (JObj ao) \<Rightarrow> map_option JObj (deepMerge ao (JObj bo))
                | _ \<Rightarrow> Some (JObj bo))
           | Some bv \<Rightarrow> Some bv)" for k
    by (simp add: lk newValue_def split: option.splits json.splits)
  have n: "deepMerge a JNull = Some a"
    by (simp add: deepMerge_def objectAssign_plain [OF assms(1)])
  have "deepMerge a (JObj b) = Some r" by (simp add: deepMerge_plain [OF assms(1)] r(1))
  moreover have "deepMerge r (JObj b) = Some r" by (simp add: deepMerge_plain [OF r(2)] r(3))
  ultimately show ?thesis using r(2) l n by blast
qed

text \<open>
  The theorem at \<^verbatim>\<open>defaultFormat\<close> and an override of three keys, and at an object and
  a layer with array-index keys, which come first and in numeric order in the result.
\<close>

theorem deepMerge_keywise_idempotent_witness:
  "plainConfig (JObj defaultFormat) \<and> plainConfig overrideFormat
   \<and> deepMerge defaultFormat overrideFormat =
       Some [(''interpretation'', JStr ''auto''),
        (''channels'', JArr [JNum 2, JNum 0]),
        (''gpu'', JObj [(''preferRGBA8'', JBool True), (''forceRGBA16F'', JBool True),
                        (''packMode'', JStr ''packsOf4'')]),
        (''image'', JNull),
        (''hints'', JObj [(''layout'', JObj [(''pyramid'', JStr ''auto''), (''planeIndex'', JNum 0),
                                            (''prefer'', JStr ''pyramid'')])])]
   \<and> deepMerge
       [(''interpretation'', JStr ''auto''),
        (''channels'', JArr [JNum 2, JNum 0]),
        (''gpu'', JObj [(''preferRGBA8'', JBool True), (''forceRGBA16F'', JBool True),
                        (''packMode'', JStr ''packsOf4'')]),
        (''image'', JNull),
        (''hints'', JObj [(''layout'', JObj [(''pyramid'', JStr ''auto''), (''planeIndex'', JNum 0),
                                            (''prefer'', JStr ''pyramid'')])])]
       overrideFormat =
       deepMerge defaultFormat overrideFormat
   \<and> plainConfig (JObj indexedObject) \<and> plainConfig indexedLayer
   \<and> deepMerge indexedObject indexedLayer =
       Some [(''0'', JNum 3), (''1'', JObj [(''x'', JNum 1), (''y'', JNum 2)]), (''10'', JNum 2),
             (''b'', JNum 1), (''01'', JNum 5)]
   \<and> deepMerge
       [(''0'', JNum 3), (''1'', JObj [(''x'', JNum 1), (''y'', JNum 2)]), (''10'', JNum 2),
        (''b'', JNum 1), (''01'', JNum 5)]
       indexedLayer =
       deepMerge indexedObject indexedLayer"
proof -
  have w: "plainConfig (JObj defaultFormat)" "plainConfig overrideFormat"
    by (simp_all add: precedes_def arrayIndex_def digitValue_def)
  have e: "deepMerge defaultFormat overrideFormat =
       Some [(''interpretation'', JStr ''auto''),
        (''channels'', JArr [JNum 2, JNum 0]),
        (''gpu'', JObj [(''preferRGBA8'', JBool True), (''forceRGBA16F'', JBool True),
                        (''packMode'', JStr ''packsOf4'')]),
        (''image'', JNull),
        (''hints'', JObj [(''layout'', JObj [(''pyramid'', JStr ''auto''), (''planeIndex'', JNum 0),
                                            (''prefer'', JStr ''pyramid'')])])]"
    by (simp add: merge_eval)
  from deepMerge_keywise_idempotent [OF w] obtain r
    where r: "deepMerge defaultFormat overrideFormat = Some r" "deepMerge r overrideFormat = Some r"
    by blast
  from r e have i: "deepMerge
       [(''interpretation'', JStr ''auto''),
        (''channels'', JArr [JNum 2, JNum 0]),
        (''gpu'', JObj [(''preferRGBA8'', JBool True), (''forceRGBA16F'', JBool True),
                        (''packMode'', JStr ''packsOf4'')]),
        (''image'', JNull),
        (''hints'', JObj [(''layout'', JObj [(''pyramid'', JStr ''auto''), (''planeIndex'', JNum 0),
                                            (''prefer'', JStr ''pyramid'')])])]
       overrideFormat = deepMerge defaultFormat overrideFormat"
    by simp
  have w2: "plainConfig (JObj indexedObject)" "plainConfig indexedLayer"
    by (simp_all add: precedes_def arrayIndex_def digitValue_def showNat.simps digitChar_def)
  have e2: "deepMerge indexedObject indexedLayer =
       Some [(''0'', JNum 3), (''1'', JObj [(''x'', JNum 1), (''y'', JNum 2)]), (''10'', JNum 2),
             (''b'', JNum 1), (''01'', JNum 5)]"
    by (simp add: merge_eval)
  from deepMerge_keywise_idempotent [OF w2] obtain r2
    where r2: "deepMerge indexedObject indexedLayer = Some r2" "deepMerge r2 indexedLayer = Some r2"
    by blast
  from r2 e2 have i2: "deepMerge
       [(''0'', JNum 3), (''1'', JObj [(''x'', JNum 1), (''y'', JNum 2)]), (''10'', JNum 2),
        (''b'', JNum 1), (''01'', JNum 5)]
       indexedLayer = deepMerge indexedObject indexedLayer"
    by simp
  from w e i w2 e2 i2 show ?thesis by blast
qed

text \<open>
  The key \<^verbatim>\<open>__proto__\<close>, which the theorem leaves out: a scalar set by the layer is
  dropped, and an object set by the layer replaces the prototype.
\<close>

lemma deepMerge_proto_scalar:
  "deepMerge [(''x'', JNum 1)] (JObj [(''__proto__'', JNum 5)]) = Some [(''x'', JNum 1)]"
  by (simp add: merge_eval)

lemma deepMerge_proto_object:
  "deepMerge [(''x'', JNum 1)] (JObj [(''__proto__'', JObj [])]) = None"
  by (simp add: merge_eval)

section \<open>Properties of the YCbCr converter\<close>

text \<open>
  The two loops of \<open>RGBAfromYCbCr\<close> write four bytes per pixel and never touch the
  bytes of an earlier pixel; the lemmas below read one pixel back from the output.
\<close>

lemma storeAt_length: "length (storeAt xs j v) = length xs"
  by (simp add: storeAt_def)

lemma storeAt_nth: "storeAt xs j v ! t = (if t = j \<and> j < length xs then v else xs ! t)"
  by (simp add: storeAt_def)

lemma writePixel_length: "length (writePixel out j px) = length out"
  by (simp add: writePixel_def storeAt_length)

lemma writePixel_below: "t < j \<Longrightarrow> writePixel out j px ! t = out ! t"
  by (simp add: writePixel_def storeAt_nth storeAt_length)

lemma writePixel_at:
  "j + 3 < length out \<Longrightarrow> k < 4 \<Longrightarrow> writePixel out j px ! (j + k) = px ! k"
proof -
  assume a: "j + 3 < length out" and "k < 4"
  then consider "k = 0" | "k = 1" | "k = 2" | "k = 3" by linarith
  then show ?thesis using a
    by cases (simp_all add: writePixel_def storeAt_nth storeAt_length)
qed

lemma planar_length: "length (ycbcrPlanarFrom y cb cr i j out) = length out"
proof (induction y cb cr i j out rule: ycbcrPlanarFrom.induct)
  case (1 y cb cr i j out)
  show ?case
  proof (cases "i < length y")
    case True
    from 1 [OF True] True show ?thesis
      by (subst ycbcrPlanarFrom.simps) (simp add: writePixel_length)
  next
    case False
    then show ?thesis by (subst ycbcrPlanarFrom.simps) simp
  qed
qed

lemma planar_below: "t < j \<Longrightarrow> ycbcrPlanarFrom y cb cr i j out ! t = out ! t"
proof (induction y cb cr i j out rule: ycbcrPlanarFrom.induct)
  case (1 y cb cr i j out)
  show ?case
  proof (cases "i < length y")
    case True
    from "1.prems" have "t < j + 4" by simp
    from "1.IH" [OF True this] True "1.prems" show ?thesis
      by (subst ycbcrPlanarFrom.simps) (simp add: writePixel_below)
  next
    case False
    then show ?thesis by (subst ycbcrPlanarFrom.simps) simp
  qed
qed

lemma planar_pixel:
  "j = 4 * i \<Longrightarrow> length out = 4 * length y \<Longrightarrow> i \<le> p \<Longrightarrow> p < length y \<Longrightarrow> k < 4 \<Longrightarrow>
   ycbcrPlanarFrom y cb cr i j out ! (4 * p + k) =
     ycbcrPixel (y ! p) (numberOf (elemAt cb p)) (numberOf (elemAt cr p)) ! k"
proof (induction y cb cr i j out rule: ycbcrPlanarFrom.induct)
  case (1 y cb cr i j out)
  let ?px = "ycbcrPixel (numberOf (elemAt y i)) (numberOf (elemAt cb i)) (numberOf (elemAt cr i))"
  let ?out = "writePixel out j ?px"
  from "1.prems" have il: "i < length y" by simp
  have unf: "ycbcrPlanarFrom y cb cr i j out = ycbcrPlanarFrom y cb cr (i + 1) (j + 4) ?out"
    using il by (subst ycbcrPlanarFrom.simps) simp
  show ?case
  proof (cases "p = i")
    case True
    have fit: "j + 3 < length out" using "1.prems" il by simp
    have yi: "numberOf (elemAt y i) = y ! i" using il by (simp add: elemAt_def numberOf_def)
    have idx: "4 * p + k = j + k" using True "1.prems"(1) by simp
    have "ycbcrPlanarFrom y cb cr i j out ! (4 * p + k)
        = ycbcrPlanarFrom y cb cr (i + 1) (j + 4) ?out ! (j + k)"
      by (simp only: unf idx)
    also have "\<dots> = ?out ! (j + k)"
      using "1.prems"(5) by (intro planar_below) simp
    also have "\<dots> = ?px ! k" by (rule writePixel_at [OF fit "1.prems"(5)])
    also have "?px = ycbcrPixel (y ! p) (numberOf (elemAt cb p)) (numberOf (elemAt cr p))"
      by (simp only: yi True)
    finally show ?thesis .
  next
    case False
    with "1.prems" have e3: "i + 1 \<le> p" by simp
    have e1: "j + 4 = 4 * (i + 1)" using "1.prems"(1) by simp
    have e2: "length ?out = 4 * length y" using "1.prems"(2) by (simp add: writePixel_length)
    have step: "ycbcrPlanarFrom y cb cr (i + 1) (j + 4) ?out ! (4 * p + k) =
        ycbcrPixel (y ! p) (numberOf (elemAt cb p)) (numberOf (elemAt cr p)) ! k"
      by (rule "1.IH" [OF il e1 e2 e3 "1.prems"(4) "1.prems"(5)])
    show ?thesis unfolding unf by (rule step)
  qed
qed

lemma interleaved_length: "length (ycbcrInterleavedFrom input i j out) = length out"
proof (induction input i j out rule: ycbcrInterleavedFrom.induct)
  case (1 input i j out)
  show ?case
  proof (cases "i < length input")
    case True
    from 1 [OF True] True show ?thesis
      by (subst ycbcrInterleavedFrom.simps) (simp add: writePixel_length)
  next
    case False
    then show ?thesis by (subst ycbcrInterleavedFrom.simps) simp
  qed
qed

lemma interleaved_below: "t < j \<Longrightarrow> ycbcrInterleavedFrom input i j out ! t = out ! t"
proof (induction input i j out rule: ycbcrInterleavedFrom.induct)
  case (1 input i j out)
  show ?case
  proof (cases "i < length input")
    case True
    from "1.prems" have "t < j + 4" by simp
    from "1.IH" [OF True this] True "1.prems" show ?thesis
      by (subst ycbcrInterleavedFrom.simps) (simp add: writePixel_below)
  next
    case False
    then show ?thesis by (subst ycbcrInterleavedFrom.simps) simp
  qed
qed

lemma interleaved_pixel:
  "i = 3 * q \<Longrightarrow> j = 4 * q \<Longrightarrow> length out = length input * 4 div 3 \<Longrightarrow>
   q \<le> p \<Longrightarrow> 3 * p + 2 < length input \<Longrightarrow> k < 4 \<Longrightarrow>
   ycbcrInterleavedFrom input i j out ! (4 * p + k) =
     ycbcrPixel (input ! (3 * p)) (input ! (3 * p + 1)) (input ! (3 * p + 2)) ! k"
proof (induction input i j out arbitrary: q rule: ycbcrInterleavedFrom.induct)
  case (1 input i j out)
  let ?px = "ycbcrPixel (numberOf (elemAt input i)) (numberOf (elemAt input (i + 1)))
                        (numberOf (elemAt input (i + 2)))"
  let ?out = "writePixel out j ?px"
  from "1.prems" have il: "i < length input" by simp
  have unf: "ycbcrInterleavedFrom input i j out = ycbcrInterleavedFrom input (i + 3) (j + 4) ?out"
    using il by (subst ycbcrInterleavedFrom.simps) simp
  have big: "4 * p + 4 \<le> length input * 4 div 3"
  proof -
    from "1.prems"(5) have "3 * (4 * p + 4) \<le> length input * 4" by simp
    then show ?thesis by (simp add: less_eq_div_iff_mult_less_eq mult.commute)
  qed
  show ?case
  proof (cases "p = q")
    case True
    have fit: "j + 3 < length out" using "1.prems"(2,3) big True by simp
    have rd: "numberOf (elemAt input i) = input ! (3 * p)"
      "numberOf (elemAt input (i + 1)) = input ! (3 * p + 1)"
      "numberOf (elemAt input (i + 2)) = input ! (3 * p + 2)"
      using "1.prems"(1,5) True by (simp_all add: elemAt_def numberOf_def)
    have idx: "4 * p + k = j + k" using True "1.prems"(2) by simp
    have "ycbcrInterleavedFrom input i j out ! (4 * p + k)
        = ycbcrInterleavedFrom input (i + 3) (j + 4) ?out ! (j + k)"
      by (simp only: unf idx)
    also have "\<dots> = ?out ! (j + k)"
      using "1.prems"(6) by (intro interleaved_below) simp
    also have "\<dots> = ?px ! k" by (rule writePixel_at [OF fit "1.prems"(6)])
    also have "?px = ycbcrPixel (input ! (3 * p)) (input ! (3 * p + 1)) (input ! (3 * p + 2))"
      by (simp only: rd)
    finally show ?thesis .
  next
    case False
    with "1.prems" have e4: "q + 1 \<le> p" by simp
    have e1: "i + 3 = 3 * (q + 1)" and e2: "j + 4 = 4 * (q + 1)"
      using "1.prems"(1,2) by simp_all
    have e3: "length ?out = length input * 4 div 3"
      using "1.prems"(3) by (simp add: writePixel_length)
    have step: "ycbcrInterleavedFrom input (i + 3) (j + 4) ?out ! (4 * p + k) =
        ycbcrPixel (input ! (3 * p)) (input ! (3 * p + 1)) (input ! (3 * p + 2)) ! k"
      by (rule "1.IH" [OF il e1 e2 e3 e4 "1.prems"(5) "1.prems"(6)])
    show ?thesis unfolding unf by (rule step)
  qed
qed

lemma roundHalfEven_range:
  assumes "0 \<le> q" "q \<le> 255"
  shows "0 \<le> roundHalfEven q \<and> roundHalfEven q \<le> 255"
proof -
  let ?f = "\<lfloor>q\<rfloor>"
  have f0: "0 \<le> ?f" using assms(1) by simp
  have f1: "of_int ?f \<le> q" by simp
  consider (lo) "roundHalfEven q = ?f" | (hi) "roundHalfEven q = ?f + 1" "1 / 2 \<le> q - of_int ?f"
  proof (cases "q - of_int ?f < 1 / 2")
    case True
    then have "roundHalfEven q = ?f" by (simp only: roundHalfEven_def Let_def if_True)
    then show ?thesis by (rule lo)
  next
    case False
    then have h: "1 / 2 \<le> q - of_int ?f" by linarith
    have "roundHalfEven q = ?f \<or> roundHalfEven q = ?f + 1"
      by (simp only: roundHalfEven_def Let_def False if_False) (metis (full_types))
    with h show ?thesis using lo hi by blast
  qed
  then show ?thesis
  proof cases
    case lo
    have "?f \<le> 255" using assms(2) by (simp add: floor_le_iff)
    with lo f0 show ?thesis by simp
  next
    case hi
    from hi(2) have "(of_int ?f :: rat) < q" by linarith
    with assms(2) have "(of_int ?f :: rat) < 255" by linarith
    then have "?f < 255" by linarith
    with hi(1) f0 show ?thesis by simp
  qed
qed

lemma toUint8Clamp_range: "0 \<le> toUint8Clamp v \<and> toUint8Clamp v \<le> 255"
  using roundHalfEven_range by (cases v) auto

lemma ycbcrPixel_sample: "ycbcrPixel (Fin 128) (Fin 12) (Fin 186) = [209, 127, 0, 255]"
  by (simp add: ycbcrPixel_def redValue_def greenValue_def blueValue_def literal_def
      arith_defs round_defs)

lemma ycbcrPixel_nth:
  "ycbcrPixel y cb cr ! 0 = toUint8Clamp (redValue (1402 / 1000) y cr)"
  "ycbcrPixel y cb cr ! Suc 0 = toUint8Clamp (greenValue (34414 / 100000) (71414 / 100000) y cb cr)"
  "ycbcrPixel y cb cr ! 2 = toUint8Clamp (blueValue (1772 / 1000) y cb)"
  "ycbcrPixel y cb cr ! 3 = 255"
  by (simp_all add: ycbcrPixel_def numeral_3_eq_3 numeral_2_eq_2)

lemma planar_out_length: "length (RGBAfromYCbCr_planar y cb cr) = 4 * length y"
  by (simp add: RGBAfromYCbCr_planar_def planar_length)

lemma planar_out_pixel:
  assumes "p < length y" "k < 4"
  shows "RGBAfromYCbCr_planar y cb cr ! (4 * p + k) =
     ycbcrPixel (y ! p) (numberOf (elemAt cb p)) (numberOf (elemAt cr p)) ! k"
  unfolding RGBAfromYCbCr_planar_def
  by (rule planar_pixel [OF _ _ _ assms]) simp_all

lemma interleaved_out_length:
  "length (RGBAfromYCbCr_interleaved input) = length input * 4 div 3"
  by (simp add: RGBAfromYCbCr_interleaved_def interleaved_length)

lemma interleaved_out_pixel:
  assumes "3 * p + 2 < length input" "k < 4"
  shows "RGBAfromYCbCr_interleaved input ! (4 * p + k) =
     ycbcrPixel (input ! (3 * p)) (input ! (3 * p + 1)) (input ! (3 * p + 2)) ! k"
  unfolding RGBAfromYCbCr_interleaved_def
  by (rule interleaved_pixel [OF _ _ _ _ assms, of _ 0]) simp_all

text \<open>
  Claim C5, as amended. For every complete pixel, in the planar form and in the
  interleaved form, the converter stores \<open>R = Y + 1.402 * (Cr - 128)\<close>,
  \<open>G = Y - 0.34414 * (Cb - 128) - 0.71414 * (Cr - 128)\<close> and
  \<open>B = Y + 1.772 * (Cb - 128)\<close>, each evaluated in double precision and stored with the
  byte clamping of a \<open>Uint8ClampedArray\<close> (nearest integer, ties to even, limited to
  0..255, never wrapped), and alpha 255. The output holds four bytes per pixel. The green
  coefficients are those of the source, 0.34414 and 0.71414.
\<close>

theorem ycbcr_pixel_values:
  "(p < length y \<longrightarrow>
      length (RGBAfromYCbCr_planar y cb cr) = 4 * length y
      \<and> RGBAfromYCbCr_planar y cb cr ! (4 * p) =
          toUint8Clamp (redValue (1402 / 1000) (y ! p) (numberOf (elemAt cr p)))
      \<and> RGBAfromYCbCr_planar y cb cr ! (4 * p + 1) =
          toUint8Clamp (greenValue (34414 / 100000) (71414 / 100000) (y ! p)
                          (numberOf (elemAt cb p)) (numberOf (elemAt cr p)))
      \<and> RGBAfromYCbCr_planar y cb cr ! (4 * p + 2) =
          toUint8Clamp (blueValue (1772 / 1000) (y ! p) (numberOf (elemAt cb p)))
      \<and> RGBAfromYCbCr_planar y cb cr ! (4 * p + 3) = 255)
   \<and> (3 * p + 2 < length input \<longrightarrow>
      length (RGBAfromYCbCr_interleaved input) = length input * 4 div 3
      \<and> RGBAfromYCbCr_interleaved input ! (4 * p) =
          toUint8Clamp (redValue (1402 / 1000) (input ! (3 * p)) (input ! (3 * p + 2)))
      \<and> RGBAfromYCbCr_interleaved input ! (4 * p + 1) =
          toUint8Clamp (greenValue (34414 / 100000) (71414 / 100000) (input ! (3 * p))
                          (input ! (3 * p + 1)) (input ! (3 * p + 2)))
      \<and> RGBAfromYCbCr_interleaved input ! (4 * p + 2) =
          toUint8Clamp (blueValue (1772 / 1000) (input ! (3 * p)) (input ! (3 * p + 1)))
      \<and> RGBAfromYCbCr_interleaved input ! (4 * p + 3) = 255)
   \<and> 0 \<le> toUint8Clamp v \<and> toUint8Clamp v \<le> 255"
proof -
  have a: "RGBAfromYCbCr_planar y cb cr ! (4 * p + k) =
      ycbcrPixel (y ! p) (numberOf (elemAt cb p)) (numberOf (elemAt cr p)) ! k"
    if "p < length y" "k < 4" for k
    by (rule planar_out_pixel [OF that])
  have b: "RGBAfromYCbCr_interleaved input ! (4 * p + k) =
      ycbcrPixel (input ! (3 * p)) (input ! (3 * p + 1)) (input ! (3 * p + 2)) ! k"
    if "3 * p + 2 < length input" "k < 4" for k
    by (rule interleaved_out_pixel [OF that])
  have k: "(0::nat) < 4" "(1::nat) < 4" "(2::nat) < 4" "(3::nat) < 4" by simp_all
  show ?thesis
    using a [OF _ k(1)] a [OF _ k(2)] a [OF _ k(3)] a [OF _ k(4)]
      b [OF _ k(1)] b [OF _ k(2)] b [OF _ k(3)] b [OF _ k(4)]
      toUint8Clamp_range [of v]
    by (simp add: ycbcrPixel_nth planar_out_length interleaved_out_length)
qed

text \<open>
  The theorem at the pixel Y = 128, Cb = 12, Cr = 186, in both input forms: the stored
  pixel is (209, 127, 0, 255); blue is limited to 0 rather than wrapped.
\<close>

theorem ycbcr_pixel_values_witness:
  "RGBAfromYCbCr_planar [Fin 128] [Fin 12] [Fin 186] ! 0 = 209
   \<and> RGBAfromYCbCr_planar [Fin 128] [Fin 12] [Fin 186] ! 1 = 127
   \<and> RGBAfromYCbCr_planar [Fin 128] [Fin 12] [Fin 186] ! 2 = 0
   \<and> RGBAfromYCbCr_planar [Fin 128] [Fin 12] [Fin 186] ! 3 = 255
   \<and> RGBAfromYCbCr_interleaved [Fin 128, Fin 12, Fin 186] ! 0 = 209
   \<and> RGBAfromYCbCr_interleaved [Fin 128, Fin 12, Fin 186] ! 1 = 127
   \<and> RGBAfromYCbCr_interleaved [Fin 128, Fin 12, Fin 186] ! 2 = 0
   \<and> RGBAfromYCbCr_interleaved [Fin 128, Fin 12, Fin 186] ! 3 = 255"
proof -
  have v: "toUint8Clamp (redValue (1402 / 1000) (Fin 128) (Fin 186)) = 209"
    "toUint8Clamp (greenValue (34414 / 100000) (71414 / 100000) (Fin 128) (Fin 12) (Fin 186)) = 127"
    "toUint8Clamp (blueValue (1772 / 1000) (Fin 128) (Fin 12)) = 0"
    using ycbcrPixel_sample by (simp_all add: ycbcrPixel_def)
  note t = ycbcr_pixel_values [of 0 "[Fin 128]" "[Fin 12]" "[Fin 186]"
      "[Fin 128, Fin 12, Fin 186]" NaN]
  from t v show ?thesis by (simp add: elemAt_def numberOf_def numeral_2_eq_2)
qed

text \<open>
  With the coefficients 0.344136 and 0.714136 the same pixel would have green 126, both
  in exact arithmetic and in double precision; the converter stores 127 in both forms.
\<close>

theorem ycbcr_green_counterexample:
  "RGBAfromYCbCr_planar [Fin 128] [Fin 12] [Fin 186] ! 1 = 127
   \<and> RGBAfromYCbCr_interleaved [Fin 128, Fin 12, Fin 186] ! 1 = 127
   \<and> specGreen 128 12 186 = 126
   \<and> toUint8Clamp (greenValue (344136 / 1000000) (714136 / 1000000)
                      (Fin 128) (Fin 12) (Fin 186)) = 126"
proof -
  have a: "RGBAfromYCbCr_planar [Fin 128] [Fin 12] [Fin 186] ! (4 * 0 + 1) =
      ycbcrPixel ([Fin 128] ! 0) (numberOf (elemAt [Fin 12] 0)) (numberOf (elemAt [Fin 186] 0)) ! 1"
    by (rule planar_out_pixel) simp_all
  have b: "RGBAfromYCbCr_interleaved [Fin 128, Fin 12, Fin 186] ! (4 * 0 + 1) =
      ycbcrPixel ([Fin 128, Fin 12, Fin 186] ! (3 * 0)) ([Fin 128, Fin 12, Fin 186] ! (3 * 0 + 1))
         ([Fin 128, Fin 12, Fin 186] ! (3 * 0 + 2)) ! 1"
    by (rule interleaved_out_pixel) simp_all
  have c: "specGreen 128 12 186 = 126"
    by (simp add: specGreen_def roundHalfEven_def Let_def)
  have d: "toUint8Clamp (greenValue (344136 / 1000000) (714136 / 1000000)
                      (Fin 128) (Fin 12) (Fin 186)) = 126"
    by (simp add: greenValue_def literal_def arith_defs round_defs)
  from a b c d show ?thesis by (simp add: elemAt_def numberOf_def ycbcrPixel_sample)
qed
end
